theory Spec2Isabelle
  imports Complex_Main
begin

section \<open>The systemd journal filter of Fail2Ban (server/filtersystemd.py)\<close>

text \<open>
  A shallow embedding of class \<open>FilterSystemd\<close>. The object's fields become record
  fields, every method takes the state and returns the new one, and an exception is a
  value of type \<open>outcome\<close> returned together with the state the method leaves behind.
  Calls to the logger are left out: they change no state.
\<close>

subsection \<open>Exceptions\<close>

datatype error =
    InvalidMatch string  \<comment> \<open>\<open>ValueError\<close> raised by \<open>journal.add_match\<close> for this token\<close>
  | MatchNotFound        \<comment> \<open>\<open>ValueError("Match not found")\<close>\<close>
  | TypeError string
  | AttributeError string
  | IndexError string
  | OverflowError string
  | OSError string

datatype outcome = Returned | Raised error

subsection \<open>The match filters held by the journal reader\<close>

text \<open>
  The reader \<open>self.__journal\<close> belongs to the systemd library. Its filter state is
  modelled as the list of the filter calls it has received since the last
  \<open>flush_matches\<close>. Which tokens \<open>add_match\<close> accepts is the library's decision: the
  predicate \<open>valid\<close> is a parameter of every definition below.
\<close>

datatype filter_op = Match string | Disjunction

definition add_match :: "(string \<Rightarrow> bool) \<Rightarrow> string \<Rightarrow> filter_op list \<Rightarrow> error + filter_op list" where
  "add_match valid tok j = (if valid tok then Inr (j @ [Match tok]) else Inl (InvalidMatch tok))"

definition add_disjunction :: "filter_op list \<Rightarrow> filter_op list" where
  "add_disjunction j = j @ [Disjunction]"

definition flush_matches :: "filter_op list \<Rightarrow> filter_op list" where
  "flush_matches j = []"

text \<open>
  Modelled from the spec: what the store makes of the calls it received, that is the
  groups of the disjunctive normal form (section 3, MatchGroup: the elements of a group
  are combined with AND, a disjunction boundary separates groups). A boundary with no
  match before it opens no group. The second argument is the group still open.
\<close>

fun dnf :: "filter_op list \<Rightarrow> string list \<Rightarrow> string list list" where
  "dnf [] cur = (if cur = [] then [] else [cur])"
| "dnf (Match t # ops) cur = dnf ops (cur @ [t])"
| "dnf (Disjunction # ops) cur = (if cur = [] then dnf ops [] else cur # dnf ops [])"

definition store_groups :: "filter_op list \<Rightarrow> string list list" where
  "store_groups j = dnf j []"

subsection \<open>The filter object\<close>

record filter_state =
  journal :: "filter_op list"      \<comment> \<open>the filter state of \<open>self.__journal\<close>\<close>
  matches :: "string list list"    \<comment> \<open>\<open>self.__matches\<close>\<close>

definition init :: filter_state where
  "init = \<lparr>journal = [], matches = []\<rparr>"

text \<open>
  \<open>_addJournalMatches\<close>, lines 101-111. The inner loop registers the elements of one
  group and appends each to the last list of \<open>newMatches\<close>; the outer loop opens a new
  list per group and closes the group with a disjunction. A rejected token leaves the
  loops at once, with the journal as it is at that moment.
\<close>

fun add_elements ::
  "(string \<Rightarrow> bool) \<Rightarrow> string list \<Rightarrow> filter_op list \<Rightarrow> string list list
    \<Rightarrow> outcome \<times> filter_op list \<times> string list list" where
  "add_elements valid [] j new = (Returned, j, new)"
| "add_elements valid (e # es) j new =
     (case add_match valid e j of
        Inl err \<Rightarrow> (Raised err, j, new)
      | Inr j' \<Rightarrow> add_elements valid es j' (butlast new @ [last new @ [e]]))"

fun add_groups ::
  "(string \<Rightarrow> bool) \<Rightarrow> string list list \<Rightarrow> filter_op list \<Rightarrow> string list list
    \<Rightarrow> outcome \<times> filter_op list \<times> string list list" where
  "add_groups valid [] j new = (Returned, j, new)"
| "add_groups valid (m # ms) j new =
     (case add_elements valid m j (new @ [[]]) of
        (Raised err, j', new') \<Rightarrow> (Raised err, j', new')
      | (Returned, j', new') \<Rightarrow> add_groups valid ms (add_disjunction j') new')"

definition priv_addJournalMatches ::
  "(string \<Rightarrow> bool) \<Rightarrow> filter_state \<Rightarrow> string list list \<Rightarrow> outcome \<times> filter_state" where
  "priv_addJournalMatches valid s ms =
     (let j0 = (if matches s \<noteq> [] then add_disjunction (journal s) else journal s) in
      case add_groups valid ms j0 [] of
        (Raised err, j', new) \<Rightarrow> (Raised err, s\<lparr>journal := j'\<rparr>)
      | (Returned, j', new) \<Rightarrow> (Returned, s\<lparr>journal := j', matches := matches s @ new\<rparr>))"

text \<open>\<open>resetJournalMatches\<close>, lines 139-150.\<close>

definition resetJournalMatches :: "(string \<Rightarrow> bool) \<Rightarrow> filter_state \<Rightarrow> outcome \<times> filter_state" where
  "resetJournalMatches valid s =
     (let match_copy = matches s in
      priv_addJournalMatches valid
        (s\<lparr>journal := flush_matches (journal s), matches := []\<rparr>) match_copy)"

text \<open>
  \<open>addJournalMatch\<close>, lines 118-133. The first loop splits the tokens at each \<open>"+"\<close>;
  it starts from \<open>[[]]\<close>.
\<close>

fun split_plus :: "string list \<Rightarrow> string list list \<Rightarrow> string list list" where
  "split_plus [] new = new"
| "split_plus (e # es) new =
     (if e = ''+'' then split_plus es (new @ [[]])
      else split_plus es (butlast new @ [last new @ [e]]))"

definition addJournalMatch :: "(string \<Rightarrow> bool) \<Rightarrow> filter_state \<Rightarrow> string list \<Rightarrow> outcome \<times> filter_state" where
  "addJournalMatch valid s match =
     (let newMatches = split_plus match [[]] in
      case priv_addJournalMatches valid s newMatches of
        (Raised err, s') \<Rightarrow>
          (case resetJournalMatches valid s' of
             (Raised err', s'') \<Rightarrow> (Raised err', s'')
           | (Returned, s'') \<Rightarrow> (Raised err, s''))
      | (Returned, s') \<Rightarrow> (Returned, s'))"

text \<open>
  \<open>delJournalMatch\<close>, lines 157-163: \<open>match in self.__matches\<close> compares the whole token
  list with each stored group, and \<open>del\<close> at \<open>index(match)\<close> removes its first occurrence.
\<close>

definition delJournalMatch :: "(string \<Rightarrow> bool) \<Rightarrow> filter_state \<Rightarrow> string list \<Rightarrow> outcome \<times> filter_state" where
  "delJournalMatch valid s match =
     (if match \<in> set (matches s)
      then resetJournalMatches valid (s\<lparr>matches := remove1 match (matches s)\<rparr>)
      else (Raised MatchNotFound, s))"

definition getJournalMatch :: "filter_state \<Rightarrow> string list list" where
  "getJournalMatch s = matches s"

text \<open>
  \<open>status\<close>, lines 290-294: the entry appended to the status of the base class, whose
  own entries (counters, or lists of strings) are the parameter \<open>ret\<close>. \<open>str_join\<close> is
  Python's \<open>sep.join(xs)\<close>.
\<close>

datatype status_value = Number int | Strings "string list"

fun str_join :: "string \<Rightarrow> string list \<Rightarrow> string" where
  "str_join sep [] = []"
| "str_join sep [x] = x"
| "str_join sep (x # y # ys) = x @ sep @ str_join sep (y # ys)"

definition status ::
  "(string \<times> status_value) list \<Rightarrow> filter_state \<Rightarrow> (string \<times> status_value) list" where
  "status ret s =
     ret @ [(''Journal matches'',
             Strings [str_join '' + '' (map (str_join '' '') (matches s))])]"

text \<open>A sequence of calls made by a client, each executed whether or not the one before raised.\<close>

datatype command = Add "string list" | Del "string list"

fun apply_command :: "(string \<Rightarrow> bool) \<Rightarrow> filter_state \<Rightarrow> command \<Rightarrow> outcome \<times> filter_state" where
  "apply_command valid s (Add m) = addJournalMatch valid s m"
| "apply_command valid s (Del m) = delJournalMatch valid s m"

fun exec :: "(string \<Rightarrow> bool) \<Rightarrow> filter_state \<Rightarrow> command list \<Rightarrow> outcome list \<times> filter_state" where
  "exec valid s [] = ([], s)"
| "exec valid s (c # cs) =
     (case apply_command valid s c of
        (out, s') \<Rightarrow> (case exec valid s' cs of (outs, s'') \<Rightarrow> (out # outs, s'')))"

subsection \<open>Journal entries\<close>

text \<open>
  A journal entry is a Python \<open>dict\<close> from field names to converted values. The values
  the reader's converters produce are text, integers, dates (for the realtime fields),
  durations (for \<open>_SOURCE_MONOTONIC_TIMESTAMP\<close>), the pair of a duration and a boot id
  (for \<open>__MONOTONIC_TIMESTAMP\<close>), and the list of the values of a field that occurs more
  than once. A duration is given by its total number of microseconds. The entry is an
  association list read with \<open>map_of\<close>, so that an empty entry can be told from an
  entry with fields.
\<close>

record datetime =
  dt_year :: nat
  dt_month :: nat
  dt_day :: nat
  dt_hour :: nat
  dt_minute :: nat
  dt_second :: nat
  dt_microsecond :: nat

datatype jvalue =
    JStr string
  | JInt int
  | JDateTime datetime
  | JTimeDelta int
  | JMonotonic int string
  | JList "jvalue list"

type_synonym logentry = "(string \<times> jvalue) list"

text \<open>
  The functions of other modules that \<open>formatJournalEntry\<close> calls are parameters:
  \<open>uni_decode\<close> is \<open>Filter.uni_decode\<close> with the log encoding of the filter,
  \<open>isoformat\<close> is \<open>datetime.isoformat\<close>, and \<open>mktime\<close> is \<open>time.mktime\<close> of the C
  library, which maps the local time of a time tuple to whole seconds since the epoch.
\<close>

record externals =
  uni_decode :: "jvalue \<Rightarrow> string"
  isoformat :: "datetime \<Rightarrow> string"
  mktime :: "nat \<times> nat \<times> nat \<times> nat \<times> nat \<times> nat \<Rightarrow> int"

definition timetuple :: "datetime \<Rightarrow> nat \<times> nat \<times> nat \<times> nat \<times> nat \<times> nat" where
  "timetuple d = (dt_year d, dt_month d, dt_day d, dt_hour d, dt_minute d, dt_second d)"

text \<open>
  The calendar, for stating what \<open>time.mktime\<close> returns on a host whose zone keeps one
  offset from UTC: the days from 1970-01-01 to a date of the Gregorian calendar, and the
  seconds from the epoch to a local time at \<open>off\<close> seconds east of UTC. \<open>posix_mktime\<close>
  reads a time tuple, \<open>epoch_seconds\<close> reads the date itself.
\<close>

definition leap_year :: "nat \<Rightarrow> bool" where
  "leap_year y \<longleftrightarrow> y mod 4 = 0 \<and> (y mod 100 \<noteq> 0 \<or> y mod 400 = 0)"

definition days_before_year :: "nat \<Rightarrow> int" where
  "days_before_year y =
     365 * (int y - 1970) +
     ((int y - 1) div 4 - (int y - 1) div 100 + (int y - 1) div 400 - 477)"

definition days_before_month :: "nat \<Rightarrow> nat \<Rightarrow> int" where
  "days_before_month y m =
     int ([0, 31, 59, 90, 120, 151, 181, 212, 243, 273, 304, 334] ! (m - 1)) +
     (if leap_year y \<and> 2 < m then 1 else 0)"

definition days_since_epoch :: "nat \<Rightarrow> nat \<Rightarrow> nat \<Rightarrow> int" where
  "days_since_epoch y m d = days_before_year y + days_before_month y m + int d - 1"

definition posix_mktime :: "int \<Rightarrow> nat \<times> nat \<times> nat \<times> nat \<times> nat \<times> nat \<Rightarrow> int" where
  "posix_mktime off =
     (\<lambda>(y, mo, d, h, mi, s).
        days_since_epoch y mo d * 86400 + int h * 3600 + int mi * 60 + int s - off)"


text \<open>The truth value Python gives to \<open>logentry.get(key)\<close> in a condition.\<close>

fun truthy :: "jvalue option \<Rightarrow> bool" where
  "truthy None = False"
| "truthy (Some (JStr s)) = (s \<noteq> [])"
| "truthy (Some (JInt n)) = (n \<noteq> 0)"
| "truthy (Some (JDateTime d)) = True"
| "truthy (Some (JTimeDelta us)) = (us \<noteq> 0)"
| "truthy (Some (JMonotonic us boot)) = True"
| "truthy (Some (JList vs)) = (vs \<noteq> [])"

subsection \<open>Number formats\<close>

definition digit_char :: "nat \<Rightarrow> char" where
  "digit_char d = ''0123456789'' ! d"

fun show_nat :: "nat \<Rightarrow> string" where
  "show_nat n = (if n < 10 then [digit_char n] else show_nat (n div 10) @ [digit_char (n mod 10)])"

declare show_nat.simps [simp del]

definition show_int :: "int \<Rightarrow> string" where
  "show_int i = (if i < 0 then ''-'' @ show_nat (nat (- i)) else show_nat (nat i))"

text \<open>\<open>"[%i]" % v\<close>: an integer is written in decimal, any other value is a \<open>TypeError\<close>.\<close>

fun percent_i :: "jvalue \<Rightarrow> error + string" where
  "percent_i (JInt n) = Inr (''['' @ show_int n @ '']'')"
| "percent_i v = Inl (TypeError ''%i format: a number is required'')"

text \<open>
  \<open>monotonic.total_seconds()\<close> divides the microseconds of the duration by \<open>10^6\<close> and
  returns the double nearest to the quotient (ties to the even mantissa).
  \<open>scale_up\<close> and \<open>scale_down\<close> bring the quotient \<open>n / d\<close> between \<open>2^52\<close> and \<open>2^53\<close> by
  doubling \<open>n\<close> or \<open>d\<close>, and count the doublings; \<open>round_half_even\<close> then gives the 53-bit
  mantissa. \<open>"%.6f"\<close> prints the multiple of \<open>10^-6\<close> nearest to that double, again with
  ties to even: \<open>float_micros a\<close> is this multiple for a duration of \<open>a\<close> microseconds.
\<close>

definition round_half_even :: "nat \<Rightarrow> nat \<Rightarrow> nat" where
  "round_half_even n d =
     (let q = n div d; r = n mod d in
      if 2 * r < d then q else if d < 2 * r then Suc q else if even q then q else Suc q)"

function scale_up :: "nat \<Rightarrow> nat \<Rightarrow> nat \<Rightarrow> nat \<times> nat" where
  "scale_up n d k = (if n = 0 \<or> 2 ^ 52 * d \<le> n then (n, k) else scale_up (2 * n) d (Suc k))"
  by pat_completeness auto
termination
  by (relation "measure (\<lambda>(n, d, k). 2 ^ 52 * d - n)") auto

declare scale_up.simps [simp del]

function scale_down :: "nat \<Rightarrow> nat \<Rightarrow> nat \<Rightarrow> nat \<times> nat" where
  "scale_down n d k = (if d = 0 \<or> n < 2 ^ 53 * d then (d, k) else scale_down n (2 * d) (Suc k))"
  by pat_completeness auto
termination
  by (relation "measure (\<lambda>(n, d, k). Suc n - 2 ^ 53 * d)") auto

declare scale_down.simps [simp del]

definition float_micros :: "nat \<Rightarrow> nat" where
  "float_micros a =
     (case scale_up a 1000000 0 of (n, up) \<Rightarrow>
      case scale_down n 1000000 0 of (d, down) \<Rightarrow>
        round_half_even (round_half_even n d * 2 ^ down * 1000000) (2 ^ up))"

text \<open>
  \<open>fixed6 n\<close> writes \<open>n\<close> millionths with six decimals: the whole part, a point and the six
  digits of the rest. \<open>"[%12.6f]" % monotonic.total_seconds()\<close> writes the sign of the
  duration and the millionths that the float of its size prints to, padded with blanks on
  the left to twelve characters, between brackets.
\<close>

definition fixed6 :: "nat \<Rightarrow> string" where
  "fixed6 n =
     (let frac = show_nat (n mod 1000000) in
      show_nat (n div 1000000) @ ''.'' @ replicate (6 - length frac) CHR ''0'' @ frac)"

definition percent_12_6f :: "int \<Rightarrow> string" where
  "percent_12_6f us =
     (let digits = (if us < 0 then ''-'' else '''') @ fixed6 (float_micros (nat \<bar>us\<bar>))
      in ''['' @ replicate (12 - length digits) CHR '' '' @ digits @ '']'')"

text \<open>
  \<open>monotonic.total_seconds()\<close> is defined for a duration only, and
  \<open>logentry.get('__MONOTONIC_TIMESTAMP')[0]\<close> subscripts whatever \<open>get\<close> returns.
\<close>

fun total_seconds :: "jvalue \<Rightarrow> error + int" where
  "total_seconds (JTimeDelta us) = Inr us"
| "total_seconds v = Inl (AttributeError ''total_seconds'')"

fun subscript0 :: "jvalue option \<Rightarrow> error + jvalue" where
  "subscript0 None = Inl (TypeError ''NoneType object is not subscriptable'')"
| "subscript0 (Some (JMonotonic us boot)) = Inr (JTimeDelta us)"
| "subscript0 (Some (JStr (c # cs))) = Inr (JStr [c])"
| "subscript0 (Some (JStr [])) = Inl (IndexError ''string index out of range'')"
| "subscript0 (Some (JList (v # vs))) = Inr v"
| "subscript0 (Some (JList [])) = Inl (IndexError ''list index out of range'')"
| "subscript0 (Some v) = Inl (TypeError ''object is not subscriptable'')"

subsection \<open>\<open>formatJournalEntry\<close>, lines 183-221\<close>

text \<open>Lines 187-189: the host element.\<close>

definition host_elements :: "externals \<Rightarrow> logentry \<Rightarrow> string list" where
  "host_elements ext logentry =
     (let v = map_of logentry ''_HOSTNAME'' in
      case v of Some x \<Rightarrow> (if truthy v then [uni_decode ext x] else []) | None \<Rightarrow> [])"

text \<open>
  Lines 190-200: the identifier element, \<open>None\<close> when the entry has neither a
  \<open>SYSLOG_IDENTIFIER\<close> nor a \<open>_COMM\<close> that counts as true.
\<close>

definition identifier_element :: "externals \<Rightarrow> logentry \<Rightarrow> error + string option" where
  "identifier_element ext logentry =
     (let v = map_of logentry ''SYSLOG_IDENTIFIER'';
          v = (if \<not> truthy v then map_of logentry ''_COMM'' else v)
      in case v of
           None \<Rightarrow> Inr None
         | Some x \<Rightarrow>
             if truthy v then
               (let el = uni_decode ext x;
                    p = map_of logentry ''SYSLOG_PID'';
                    p = (if \<not> truthy p then map_of logentry ''_PID'' else p)
                in case p of
                     None \<Rightarrow> Inr (Some (el @ '':''))
                   | Some pid \<Rightarrow>
                       if truthy p then
                         (case percent_i pid of
                            Inl err \<Rightarrow> Inl err
                          | Inr s \<Rightarrow> Inr (Some (el @ s @ '':'')))
                       else Inr (Some (el @ '':'')))
             else Inr None)"

text \<open>Lines 201-206, entered when the identifier element is \<open>"kernel:"\<close>.\<close>

definition kernel_monotonic :: "logentry \<Rightarrow> error + int" where
  "kernel_monotonic logentry =
     (case map_of logentry ''_SOURCE_MONOTONIC_TIMESTAMP'' of
        Some monotonic \<Rightarrow> total_seconds monotonic
      | None \<Rightarrow>
          (case subscript0 (map_of logentry ''__MONOTONIC_TIMESTAMP'') of
             Inl err \<Rightarrow> Inl err
           | Inr monotonic \<Rightarrow> total_seconds monotonic))"

text \<open>Lines 207-211: the message element, \<open>''\<close> when the entry has no \<open>MESSAGE\<close>.\<close>

definition message_element :: "externals \<Rightarrow> logentry \<Rightarrow> string" where
  "message_element ext logentry =
     (case map_of logentry ''MESSAGE'' of
        None \<Rightarrow> uni_decode ext (JStr [])
      | Some (JList msg) \<Rightarrow> str_join '' '' (map (uni_decode ext) msg)
      | Some msg \<Rightarrow> uni_decode ext msg)"

text \<open>Lines 186-213: the elements in the order they are appended, and the line.\<close>

definition logelements :: "externals \<Rightarrow> logentry \<Rightarrow> error + string list" where
  "logelements ext logentry =
     (case identifier_element ext logentry of
        Inl err \<Rightarrow> Inl err
      | Inr None \<Rightarrow> Inr (host_elements ext logentry @ [message_element ext logentry])
      | Inr (Some ident) \<Rightarrow>
          if ident = ''kernel:'' then
            (case kernel_monotonic logentry of
               Inl err \<Rightarrow> Inl err
             | Inr us \<Rightarrow>
                 Inr (host_elements ext logentry @ [ident, percent_12_6f us]
                      @ [message_element ext logentry]))
          else Inr (host_elements ext logentry @ [ident] @ [message_element ext logentry]))"

definition logline :: "externals \<Rightarrow> logentry \<Rightarrow> error + string" where
  "logline ext logentry =
     (case logelements ext logentry of
        Inl err \<Rightarrow> Inl err
      | Inr els \<Rightarrow> Inr (str_join '' '' els))"

text \<open>
  Lines 215-221: \<open>get\<close> with a default takes the source's realtime field when the key is
  present, else the store's own; a missing date, or a value that is no date, has no
  \<open>isoformat\<close>. The numeric timestamp is a Python float, modelled as a real number.
\<close>

definition entry_date :: "logentry \<Rightarrow> error + datetime" where
  "entry_date logentry =
     (case (case map_of logentry ''_SOURCE_REALTIME_TIMESTAMP'' of
              Some v \<Rightarrow> Some v
            | None \<Rightarrow> map_of logentry ''__REALTIME_TIMESTAMP'') of
        Some (JDateTime d) \<Rightarrow> Inr d
      | _ \<Rightarrow> Inl (AttributeError ''isoformat''))"

definition formatJournalEntry ::
  "externals \<Rightarrow> logentry \<Rightarrow> error + ((string \<times> string \<times> string) \<times> real)" where
  "formatJournalEntry ext logentry =
     (case logline ext logentry of
        Inl err \<Rightarrow> Inl err
      | Inr line \<Rightarrow>
          (case entry_date logentry of
             Inl err \<Rightarrow> Inl err
           | Inr date \<Rightarrow>
               Inr ((take 0 line, isoformat ext date, line),
                    of_int (mktime ext (timetuple date)) + real (dt_microsecond date) / 1000000)))"

subsection \<open>The main loop: collaborators\<close>

text \<open>
  \<open>run\<close> talks to the journal reader, to two flags that other threads set, to the failure
  manager and to the jail. The journal reader is the systemd library: its operations are
  the fields of \<open>journal_ops\<close>, over a state \<open>'j\<close> of the reader that is left open. A
  forward read returns \<open>None\<close> when the library raises \<open>OSError\<close>, and the empty entry
  when there is no entry. A step back returns the entry, or the exception the library
  raises. \<open>seek_realtime\<close> takes a point in time, in microseconds on the calendar of the
  host since 1970-01-01 00:00:00.
\<close>

record 'j journal_ops =
  seek_realtime :: "int \<Rightarrow> 'j \<Rightarrow> 'j"
  get_previous :: "'j \<Rightarrow> (error + logentry) \<times> 'j"
  get_next :: "'j \<Rightarrow> logentry option \<times> 'j"
  wait :: "'j \<Rightarrow> 'j"

text \<open>
  Modelled from the spec: the failure manager and \<open>processLineAndAdd\<close> (failmanager.py and
  filter.py are not among the sources). Section 6: the engine takes a normalized entry
  and "will eventually yield zero or more ban tickets"; "next ban ticket" raises an
  "empty" signal when no ticket is pending. So the manager is the list of its pending
  tickets, and \<open>detect\<close> gives the tickets that processing an entry makes pending.
\<close>

type_synonym ticket = string

text \<open>
  The world around the loop. The flags \<open>self.active\<close> and \<open>self.idle\<close> are given by the
  value each read of them finds: \<open>active W n\<close> is what the read number \<open>n\<close> of
  \<open>self.active\<close> returns. \<open>now\<close> is \<open>datetime.now()\<close> at the start, in microseconds on the
  calendar of the host, and \<open>findtime\<close> the find time in seconds.
  \<open>fromtimestamp\<close> is \<open>datetime.fromtimestamp\<close>: it makes a number of seconds a date, or
  raises for a number the platform cannot convert.
\<close>

record 'j world =
  reader :: "'j journal_ops"
  active :: "nat \<Rightarrow> bool"
  idle :: "nat \<Rightarrow> bool"
  helpers :: externals
  detect :: "(string \<times> string \<times> string) \<times> real \<Rightarrow> ticket list"
  now :: int
  findtime :: int
  fromtimestamp :: "real \<Rightarrow> error + int"

text \<open>What the loop does to its collaborators, in order.\<close>

datatype event =
    PollActive bool
  | Seek int
  | StepBack
  | Wait
  | PollIdle bool
  | Sleep
  | Next bool
  | Processed string
  | ToBan ticket
  | ToBanEmpty
  | PutFailTicket ticket
  | Cleanup

record 'j run_state =
  jrnl :: 'j                   \<comment> \<open>the reader \<open>self.__journal\<close>\<close>
  ticks :: nat                 \<comment> \<open>\<open>self.ticks\<close>\<close>
  modified :: nat              \<comment> \<open>\<open>self.__modified\<close>\<close>
  pending :: "ticket list"     \<comment> \<open>the tickets the failure manager holds\<close>
  jail_queue :: "ticket list"  \<comment> \<open>the tickets put to the jail\<close>
  active_reads :: nat          \<comment> \<open>how often \<open>self.active\<close> was read\<close>
  idle_reads :: nat            \<comment> \<open>how often \<open>self.idle\<close> was read\<close>
  trace :: "event list"

definition read_active :: "'j world \<Rightarrow> 'j run_state \<Rightarrow> bool \<times> 'j run_state" where
  "read_active W s =
     (active W (active_reads s),
      s\<lparr>active_reads := Suc (active_reads s),
        trace := trace s @ [PollActive (active W (active_reads s))]\<rparr>)"

definition read_idle :: "'j world \<Rightarrow> 'j run_state \<Rightarrow> bool \<times> 'j run_state" where
  "read_idle W s =
     (idle W (idle_reads s),
      s\<lparr>idle_reads := Suc (idle_reads s),
        trace := trace s @ [PollIdle (idle W (idle_reads s))]\<rparr>)"

subsection \<open>\<open>seekToTime\<close> and the start of \<open>run\<close>\<close>

text \<open>
  \<open>seekToTime\<close>, lines 223-226: a value that is no date is a number of seconds, which
  \<open>datetime.fromtimestamp\<close> makes a date or rejects; the exception leaves the method.
\<close>

datatype seek_date = AsDatetime int | AsTimestamp real

definition seekToTime :: "'j world \<Rightarrow> seek_date \<Rightarrow> 'j run_state \<Rightarrow> outcome \<times> 'j run_state" where
  "seekToTime W date s =
     (case (case date of AsDatetime t \<Rightarrow> Inr t | AsTimestamp x \<Rightarrow> fromtimestamp W x) of
        Inl err \<Rightarrow> (Raised err, s)
      | Inr date' \<Rightarrow>
          (Returned,
           s\<lparr>jrnl := seek_realtime (reader W) date' (jrnl s), trace := trace s @ [Seek date']\<rparr>))"

text \<open>
  The ranges of Python's \<open>datetime\<close> (years 1 to 9999) and \<open>timedelta\<close> (at most
  999999999 days either way): \<open>timedelta(seconds=n)\<close> raises \<open>OverflowError\<close> outside its
  range, and so does the subtraction when the result is no date.
\<close>

definition datetime_min :: int where
  "datetime_min = - 62135596800000000"

definition datetime_max :: int where
  "datetime_max = 253402300799999999"

definition timedelta_seconds_ok :: "int \<Rightarrow> bool" where
  "timedelta_seconds_ok n \<longleftrightarrow> - 999999999 \<le> n div 86400 \<and> n div 86400 \<le> 999999999"

text \<open>
  Lines 242-251: seek to now minus the find time (whole seconds), then step back one
  entry; an \<open>OSError\<close> of the step is passed over, any other exception leaves \<open>run\<close>.
\<close>

definition startup :: "'j world \<Rightarrow> 'j run_state \<Rightarrow> outcome \<times> 'j run_state" where
  "startup W s =
     (if \<not> timedelta_seconds_ok (findtime W)
      then (Raised (OverflowError ''timedelta out of range''), s)
      else
        let start_time = now W - findtime W * 1000000 in
        if start_time < datetime_min \<or> datetime_max < start_time
        then (Raised (OverflowError ''date value out of range''), s)
        else
          (case seekToTime W (AsDatetime start_time) s of
             (Raised err, s1) \<Rightarrow> (Raised err, s1)
           | (Returned, s1) \<Rightarrow>
               (case get_previous (reader W) (jrnl s1) of
                  (Inl (OSError msg), j) \<Rightarrow>
                    (Returned, s1\<lparr>jrnl := j, trace := trace s1 @ [StepBack]\<rparr>)
                | (Inl err, j) \<Rightarrow>
                    (Raised err, s1\<lparr>jrnl := j, trace := trace s1 @ [StepBack]\<rparr>)
                | (Inr e, j) \<Rightarrow>
                    (Returned, s1\<lparr>jrnl := j, trace := trace s1 @ [StepBack]\<rparr>))))"

subsection \<open>The loops of \<open>run\<close>, lines 253-288\<close>

text \<open>
  The inner loop, lines 262-277. A read fault is logged and leaves \<open>logentry\<close> at \<open>None\<close>,
  which ends the loop as the empty entry does. An exception of \<open>formatJournalEntry\<close>
  leaves \<open>run\<close>.
\<close>

function drain :: "'j world \<Rightarrow> 'j run_state \<Rightarrow> outcome \<times> 'j run_state" where
  "drain W s =
     (case read_active W s of (a, s1) \<Rightarrow>
        if \<not> a then (Returned, s1)
        else
          (case get_next (reader W) (jrnl s1) of (r, j) \<Rightarrow>
             let logentry = (case r of None \<Rightarrow> [] | Some e \<Rightarrow> e);
                 s2 = s1\<lparr>jrnl := j, ticks := Suc (ticks s1),
                         trace := trace s1 @ [Next (logentry \<noteq> [])]\<rparr>
             in if logentry \<noteq> [] then
                  (case formatJournalEntry (helpers W) logentry of
                     Inl err \<Rightarrow> (Raised err, s2)
                   | Inr entry \<Rightarrow>
                       let s3 = s2\<lparr>pending := pending s2 @ detect W entry,
                                   modified := Suc (modified s2),
                                   trace := trace s2 @ [Processed (snd (snd (fst entry)))]\<rparr>
                       in if modified s3 \<ge> 100 then (Returned, s3) else drain W s3)
                else (Returned, s2)))"
  by pat_completeness auto
termination
  by (relation "measure (\<lambda>(W, s). 100 - modified s)") (auto simp: read_active_def)

declare drain.simps [simp del]

text \<open>
  Lines 278-284: tickets are taken from the failure manager and put to the jail until
  the manager raises \<open>FailManagerEmpty\<close>; then the manager cleans up.
\<close>

fun ticket_loop :: "ticket list \<Rightarrow> 'j run_state \<Rightarrow> 'j run_state" where
  "ticket_loop [] s = s\<lparr>pending := [], trace := trace s @ [ToBanEmpty, Cleanup]\<rparr>"
| "ticket_loop (t # ts) s =
     ticket_loop ts
       (s\<lparr>pending := ts, jail_queue := jail_queue s @ [t],
          trace := trace s @ [ToBan t, PutFailTicket t]\<rparr>)"

definition ticket_drain :: "'j run_state \<Rightarrow> 'j run_state" where
  "ticket_drain s = ticket_loop (pending s) s"

text \<open>The body of the outer loop, lines 254-284.\<close>

definition wait_cycle :: "'j world \<Rightarrow> 'j run_state \<Rightarrow> outcome \<times> 'j run_state" where
  "wait_cycle W s =
     (let s1 = s\<lparr>jrnl := wait (reader W) (jrnl s), trace := trace s @ [Wait]\<rparr> in
      case read_idle W s1 of (i, s2) \<Rightarrow>
        if i then (Returned, s2\<lparr>trace := trace s2 @ [Sleep]\<rparr>)
        else
          (case drain W (s2\<lparr>modified := 0\<rparr>) of
             (Raised err, s3) \<Rightarrow> (Raised err, s3)
           | (Returned, s3) \<Rightarrow>
               (Returned, if modified s3 \<noteq> 0 then ticket_drain s3 else s3)))"

text \<open>
  The outer loop, line 253. It runs as long as the flag reads true, so it is given fuel:
  \<open>None\<close> means that the fuel ran out before the loop ended.
\<close>

fun main_loop :: "'j world \<Rightarrow> nat \<Rightarrow> 'j run_state \<Rightarrow> (outcome \<times> 'j run_state) option" where
  "main_loop W 0 s = None"
| "main_loop W (Suc n) s =
     (case read_active W s of (a, s1) \<Rightarrow>
        if \<not> a then Some (Returned, s1)
        else
          (case wait_cycle W s1 of
             (Raised err, s2) \<Rightarrow> Some (Raised err, s2)
           | (Returned, s2) \<Rightarrow> main_loop W n s2))"

definition run :: "'j world \<Rightarrow> nat \<Rightarrow> 'j run_state \<Rightarrow> (outcome \<times> 'j run_state) option" where
  "run W n s =
     (case startup W s of
        (Raised err, s1) \<Rightarrow> Some (Raised err, s1)
      | (Returned, s1) \<Rightarrow> main_loop W n s1)"

definition new_run_state :: "'j \<Rightarrow> 'j run_state" where
  "new_run_state j =
     \<lparr>jrnl = j, ticks = 0, modified = 0, pending = [], jail_queue = [],
      active_reads = 0, idle_reads = 0, trace = []\<rparr>"

subsection \<open>A journal reader with a cursor\<close>

text \<open>
  Modelled from the spec: the read cursor of the journal store (the systemd library is
  not among the sources). Section 3, CursorPosition: after the startup seek "the position
  is one entry before the first entry at or after now - findtime", so that "the next
  forward read yields exactly the first relevant entry"; section 4.3: the seek positions
  the cursor "so that a subsequent forward read yields the first entry at or after
  timestamp", a step back with no prior entry "is not an error - the cursor simply stays
  at the logical start", and \<open>next\<close> returns the next entry forward or "no entry". So the
  cursor is either at a seek point before the entry of an index, or on an entry; a
  forward read moves to the entry at the seek point, or to the one after the entry the
  cursor is on. The store lists its entries with their realtime stamps in microseconds;
  \<open>broken\<close> makes every step back raise \<open>OSError\<close>.
\<close>

datatype position = SeekPoint nat | OnEntry nat

record store =
  entries :: "(int \<times> logentry) list"
  cursor :: position
  broken :: bool

definition store_seek_realtime :: "int \<Rightarrow> store \<Rightarrow> store" where
  "store_seek_realtime t j =
     j\<lparr>cursor := SeekPoint (length (takeWhile (\<lambda>(ts, e). ts < t) (entries j)))\<rparr>"

definition store_get_next :: "store \<Rightarrow> logentry option \<times> store" where
  "store_get_next j =
     (let i = (case cursor j of SeekPoint i \<Rightarrow> i | OnEntry k \<Rightarrow> Suc k) in
      if i < length (entries j) then (Some (snd (entries j ! i)), j\<lparr>cursor := OnEntry i\<rparr>)
      else (Some [], j))"

definition store_get_previous :: "store \<Rightarrow> (error + logentry) \<times> store" where
  "store_get_previous j =
     (if broken j then (Inl (OSError ''step back failed''), j)
      else
        (case cursor j of
           SeekPoint 0 \<Rightarrow> (Inr [], j)
         | SeekPoint (Suc i) \<Rightarrow> (Inr (snd (entries j ! i)), j\<lparr>cursor := OnEntry i\<rparr>)
         | OnEntry 0 \<Rightarrow> (Inr [], j)
         | OnEntry (Suc k) \<Rightarrow> (Inr (snd (entries j ! k)), j\<lparr>cursor := OnEntry k\<rparr>)))"

definition store_ops :: "store journal_ops" where
  "store_ops =
     \<lparr>seek_realtime = store_seek_realtime, get_previous = store_get_previous,
      get_next = store_get_next, wait = (\<lambda>j. j)\<rparr>"

subsection \<open>Example inputs\<close>

text \<open>
  An acceptance predicate for examples: the store takes the tokens that have the form
  \<open>FIELD=value\<close>.
\<close>

definition field_value_token :: "string \<Rightarrow> bool" where
  "field_value_token t \<longleftrightarrow> CHR ''='' \<in> set t"

text \<open>Stand-ins for the external functions, and a kernel entry, for the examples below.\<close>

definition sample_externals :: externals where
  "sample_externals =
     \<lparr>uni_decode = (\<lambda>v. case v of JStr s \<Rightarrow> s | _ \<Rightarrow> []),
      isoformat = (\<lambda>d. show_nat (dt_year d) @ ''-'' @ show_nat (dt_month d) @ ''-'' @ show_nat (dt_day d)),
      mktime = posix_mktime 0\<rparr>"

definition kernel_entry :: logentry where
  "kernel_entry =
     [(''_HOSTNAME'', JStr ''host1''),
      (''SYSLOG_IDENTIFIER'', JStr ''kernel''),
      (''__MONOTONIC_TIMESTAMP'', JMonotonic 1234567 ''boot0''),
      (''MESSAGE'', JStr ''usb 1-1: new device''),
      (''__REALTIME_TIMESTAMP'',
         JDateTime \<lparr>dt_year = 2013, dt_month = 11, dt_day = 2, dt_hour = 0, dt_minute = 2,
                    dt_second = 5, dt_microsecond = 250000\<rparr>)]"

text \<open>A kernel entry that has no monotonic field.\<close>

definition bare_kernel_entry :: logentry where
  "bare_kernel_entry =
     [(''_HOSTNAME'', JStr ''host1''),
      (''SYSLOG_IDENTIFIER'', JStr ''kernel''),
      (''MESSAGE'', JStr ''usb 1-1: new device''),
      (''__REALTIME_TIMESTAMP'',
         JDateTime \<lparr>dt_year = 2013, dt_month = 11, dt_day = 2, dt_hour = 0, dt_minute = 2,
                    dt_second = 5, dt_microsecond = 250000\<rparr>)]"

text \<open>A reader that returns the kernel entry at every forward read, and counts its reads.\<close>

definition endless_world :: "nat world" where
  "endless_world =
     \<lparr>reader = \<lparr>seek_realtime = (\<lambda>t j. j), get_previous = (\<lambda>j. (Inr [], j)),
                get_next = (\<lambda>j. (Some kernel_entry, Suc j)), wait = (\<lambda>j. j)\<rparr>,
      active = (\<lambda>n. True), idle = (\<lambda>n. False), helpers = sample_externals,
      detect = (\<lambda>entry. []), now = 1383350525000000, findtime = 600,
      fromtimestamp = (\<lambda>x. Inr \<lfloor>x * 1000000\<rfloor>)\<rparr>"

text \<open>
  A store of four entries, a world around the cursor reader in which the active flag is
  set for its first two reads only and every processed entry makes three tickets pending,
  and a store that holds the kernel entry and fails on every step back.
\<close>

definition sample_store :: store where
  "sample_store =
     \<lparr>entries = [(100000000, [(''MESSAGE'', JStr ''a'')]),
                 (399999999, [(''MESSAGE'', JStr ''b'')]),
                 (400000000, [(''MESSAGE'', JStr ''c'')]),
                 (900000000, [(''MESSAGE'', JStr ''d'')])],
      cursor = SeekPoint 0, broken = False\<rparr>"

definition store_world :: "store world" where
  "store_world =
     \<lparr>reader = store_ops, active = (\<lambda>n. n < 2), idle = (\<lambda>n. False),
      helpers = sample_externals,
      detect = (\<lambda>entry. [''192.0.2.1'', ''192.0.2.2'', ''192.0.2.3'']),
      now = 1000000000, findtime = 600,
      fromtimestamp = (\<lambda>x. Inr \<lfloor>x * 1000000\<rfloor>)\<rparr>"

definition kernel_store :: store where
  "kernel_store = \<lparr>entries = [(500000000, kernel_entry)], cursor = SeekPoint 0, broken = True\<rparr>"

section \<open>Properties of the match filters\<close>

subsection \<open>Auxiliary notions\<close>

text \<open>The calls that register the groups \<open>ms\<close> one after the other.\<close>

definition group_ops :: "string list list \<Rightarrow> filter_op list" where
  "group_ops ms = concat (map (\<lambda>m. map Match m @ [Disjunction]) ms)"

text \<open>No group is open: nothing was registered, or the last call was a disjunction.\<close>

definition closed :: "filter_op list \<Rightarrow> bool" where
  "closed j \<longleftrightarrow> j = [] \<or> last j = Disjunction"

text \<open>
  The invariant of the filter object: every stored token was accepted by the store, the
  store has no open group, and its groups are the stored groups that have an element.
\<close>

definition in_sync :: "(string \<Rightarrow> bool) \<Rightarrow> filter_state \<Rightarrow> bool" where
  "in_sync valid s \<longleftrightarrow>
     (\<forall>g\<in>set (matches s). \<forall>t\<in>set g. valid t) \<and> closed (journal s) \<and>
     store_groups (journal s) = filter (\<lambda>g. g \<noteq> []) (matches s)"

subsection \<open>Auxiliary notions for the formatter\<close>

text \<open>The number a string of decimal digits denotes, read digit by digit from the left.\<close>

definition digit_value :: "char \<Rightarrow> nat" where
  "digit_value c = of_char c - 48"

definition decimal_value :: "string \<Rightarrow> nat" where
  "decimal_value s = foldl (\<lambda>n c. 10 * n + digit_value c) 0 s"

subsection \<open>Auxiliary notions for the main loop\<close>

text \<open>The state after a read of \<open>self.active\<close> that found \<open>a\<close>.\<close>

definition polled :: "'j run_state \<Rightarrow> bool \<Rightarrow> 'j run_state" where
  "polled s a = s\<lparr>active_reads := Suc (active_reads s), trace := trace s @ [PollActive a]\<rparr>"

text \<open>The state after one pass of the inner loop that read the journal and found an entry (\<open>b\<close>) or none.\<close>

definition fetched :: "'j run_state \<Rightarrow> 'j \<Rightarrow> bool \<Rightarrow> 'j run_state" where
  "fetched s j b =
     s\<lparr>active_reads := Suc (active_reads s), jrnl := j, ticks := Suc (ticks s),
       trace := trace s @ [PollActive True, Next b]\<rparr>"

text \<open>The state after one pass of the inner loop that processed an entry.\<close>

definition handled ::
  "'j world \<Rightarrow> 'j run_state \<Rightarrow> 'j \<Rightarrow> (string \<times> string \<times> string) \<times> real \<Rightarrow> 'j run_state" where
  "handled W s j entry =
     s\<lparr>active_reads := Suc (active_reads s), jrnl := j, ticks := Suc (ticks s),
       pending := pending s @ detect W entry, modified := Suc (modified s),
       trace := trace s @ [PollActive True, Next True, Processed (snd (snd (fst entry)))]\<rparr>"

text \<open>The state of the reader after \<open>k\<close> forward reads.\<close>

fun reads_ahead :: "'j world \<Rightarrow> 'j \<Rightarrow> nat \<Rightarrow> 'j" where
  "reads_ahead W j 0 = j"
| "reads_ahead W j (Suc k) = reads_ahead W (snd (get_next (reader W) j)) k"

text \<open>The next forward read returns an entry, and \<open>formatJournalEntry\<close> returns on it.\<close>

definition readable :: "'j world \<Rightarrow> 'j \<Rightarrow> bool" where
  "readable W j =
     (case fst (get_next (reader W) j) of
        None \<Rightarrow> False
      | Some e \<Rightarrow> e \<noteq> [] \<and> (case formatJournalEntry (helpers W) e of Inl err \<Rightarrow> False | Inr entry \<Rightarrow> True))"

text \<open>The next forward read returns no entry, or fails.\<close>

definition exhausted :: "'j world \<Rightarrow> 'j \<Rightarrow> bool" where
  "exhausted W j = (case fst (get_next (reader W) j) of None \<Rightarrow> True | Some e \<Rightarrow> e = [])"

text \<open>How many entries a trace hands to \<open>processLineAndAdd\<close>.\<close>

definition processed_events :: "event list \<Rightarrow> nat" where
  "processed_events tr = length (filter (\<lambda>ev. case ev of Processed l \<Rightarrow> True | _ \<Rightarrow> False) tr)"

text \<open>What every run of the inner loop guarantees about the state it leaves.\<close>

definition drain_post :: "'j world \<Rightarrow> 'j run_state \<Rightarrow> 'j run_state \<Rightarrow> bool" where
  "drain_post W s s' \<longleftrightarrow>
     modified s \<le> modified s' \<and> (modified s < 100 \<longrightarrow> modified s' \<le> 100) \<and>
     ticks s' \<le> ticks s + (modified s' - modified s) + 1 \<and>
     ticks s \<le> ticks s' \<and>
     processed_events (trace s') = processed_events (trace s) + (modified s' - modified s) \<and>
     active_reads s < active_reads s' \<and>
     (\<exists>evs. trace s' = trace s @ PollActive (active W (active_reads s)) # evs)"

text \<open>
  The state in which a wait cycle that is not idle enters the inner loop: after the wait
  and the read of the idle flag, with the counter reset (line 261).
\<close>

definition entered :: "'j world \<Rightarrow> 'j run_state \<Rightarrow> 'j run_state" where
  "entered W s =
     s\<lparr>jrnl := wait (reader W) (jrnl s), idle_reads := Suc (idle_reads s),
       trace := trace s @ [Wait, PollIdle False], modified := 0\<rparr>"

text \<open>
  The find time is in the range of \<open>timedelta\<close>, and now minus the find time is in the range
  of \<open>datetime\<close>: the start time of line 243 exists.
\<close>

definition start_time_ok :: "'j world \<Rightarrow> bool" where
  "start_time_ok W \<longleftrightarrow>
     timedelta_seconds_ok (findtime W) \<and>
     datetime_min \<le> now W - findtime W * 1000000 \<and>
     now W - findtime W * 1000000 \<le> datetime_max"

subsection \<open>The registration loops\<close>

lemma add_elements_ok:
  "\<forall>e\<in>set es. valid e \<Longrightarrow> new \<noteq> [] \<Longrightarrow>
   add_elements valid es j new = (Returned, j @ map Match es, butlast new @ [last new @ es])"
  by (induction es arbitrary: j new) (auto simp: add_match_def)

lemma add_elements_bad:
  "\<exists>e\<in>set es. \<not> valid e \<Longrightarrow>
   \<exists>t j' new'. t \<in> set es \<and> \<not> valid t \<and>
      add_elements valid es j new = (Raised (InvalidMatch t), j', new')"
proof (induction es arbitrary: j new)
  case Nil
  then show ?case by simp
next
  case (Cons a es)
  show ?case
  proof (cases "valid a")
    case True
    with Cons.prems have "\<exists>e\<in>set es. \<not> valid e" by auto
    from Cons.IH[OF this, of "j @ [Match a]" "butlast new @ [last new @ [a]]"]
    obtain t j' new' where "t \<in> set es" "\<not> valid t"
      "add_elements valid es (j @ [Match a]) (butlast new @ [last new @ [a]]) =
         (Raised (InvalidMatch t), j', new')" by blast
    then show ?thesis using True by (simp add: add_match_def)
  next
    case False
    then show ?thesis by (simp add: add_match_def)
  qed
qed

lemma add_groups_ok:
  "\<forall>m\<in>set ms. \<forall>e\<in>set m. valid e \<Longrightarrow>
   add_groups valid ms j new = (Returned, j @ group_ops ms, new @ ms)"
  by (induction ms arbitrary: j new) (simp_all add: add_elements_ok add_disjunction_def group_ops_def)

lemma add_groups_bad:
  "\<exists>m\<in>set ms. \<exists>e\<in>set m. \<not> valid e \<Longrightarrow>
   \<exists>t j' new'. t \<in> \<Union> (set ` set ms) \<and> \<not> valid t \<and>
      add_groups valid ms j new = (Raised (InvalidMatch t), j', new')"
proof (induction ms arbitrary: j new)
  case Nil
  then show ?case by simp
next
  case (Cons m ms)
  show ?case
  proof (cases "\<forall>e\<in>set m. valid e")
    case True
    with Cons.prems have "\<exists>m\<in>set ms. \<exists>e\<in>set m. \<not> valid e" by auto
    from Cons.IH[OF this, of "add_disjunction (j @ map Match m)" "new @ [m]"]
    obtain t j' new' where "t \<in> \<Union> (set ` set ms)" "\<not> valid t"
      "add_groups valid ms (add_disjunction (j @ map Match m)) (new @ [m]) =
         (Raised (InvalidMatch t), j', new')" by blast
    then show ?thesis using True by (simp add: add_elements_ok)
  next
    case False
    then have "\<exists>e\<in>set m. \<not> valid e" by simp
    from add_elements_bad[OF this, of j "new @ [[]]"]
    obtain t j' new' where "t \<in> set m" "\<not> valid t"
      "add_elements valid m j (new @ [[]]) = (Raised (InvalidMatch t), j', new')" by blast
    then show ?thesis by simp
  qed
qed

lemma priv_add_ok:
  "\<forall>m\<in>set ms. \<forall>e\<in>set m. valid e \<Longrightarrow>
   priv_addJournalMatches valid s ms =
     (Returned, s\<lparr>journal := (if matches s \<noteq> [] then journal s @ [Disjunction] else journal s)
                               @ group_ops ms,
                   matches := matches s @ ms\<rparr>)"
  by (simp add: priv_addJournalMatches_def add_groups_ok add_disjunction_def Let_def)

lemma priv_add_bad:
  assumes "\<exists>m\<in>set ms. \<exists>e\<in>set m. \<not> valid e"
  shows "\<exists>t j'. t \<in> \<Union> (set ` set ms) \<and> \<not> valid t \<and>
           priv_addJournalMatches valid s ms = (Raised (InvalidMatch t), s\<lparr>journal := j'\<rparr>)"
proof -
  let ?j0 = "if matches s \<noteq> [] then add_disjunction (journal s) else journal s"
  obtain t j' new' where t: "t \<in> \<Union> (set ` set ms)" "\<not> valid t"
    and g: "add_groups valid ms ?j0 [] = (Raised (InvalidMatch t), j', new')"
    using add_groups_bad[OF assms, of ?j0 "[]"] by blast
  have "priv_addJournalMatches valid s ms = (Raised (InvalidMatch t), s\<lparr>journal := j'\<rparr>)"
    unfolding priv_addJournalMatches_def Let_def g by simp
  with t show ?thesis by blast
qed

lemma reset_ok:
  "\<forall>m\<in>set (matches s). \<forall>e\<in>set m. valid e \<Longrightarrow>
   resetJournalMatches valid s = (Returned, s\<lparr>journal := group_ops (matches s)\<rparr>)"
  by (simp add: resetJournalMatches_def priv_add_ok flush_matches_def)

subsection \<open>Splitting at the sentinel\<close>

lemma concat_snoc_last: "new \<noteq> [] \<Longrightarrow> concat (butlast new @ [last new @ [e]]) = concat new @ [e]"
  by (cases new rule: rev_cases) simp_all

lemma concat_split_plus:
  "new \<noteq> [] \<Longrightarrow> concat (split_plus es new) = concat new @ filter (\<lambda>t. t \<noteq> ''+'') es"
proof (induction es arbitrary: new)
  case Nil
  then show ?case by simp
next
  case (Cons e es)
  show ?case
  proof (cases "e = ''+''")
    case True
    then show ?thesis using Cons.IH[of "new @ [[]]"] by simp
  next
    case False
    have "butlast new @ [last new @ [e]] \<noteq> []" by simp
    from Cons.IH[OF this] have "concat (split_plus es (butlast new @ [last new @ [e]])) =
        concat (butlast new @ [last new @ [e]]) @ filter (\<lambda>t. t \<noteq> ''+'') es" .
    then show ?thesis using False Cons.prems by (simp add: concat_snoc_last del: concat_append)
  qed
qed

lemma tokens_split_plus: "\<Union> (set ` set (split_plus es [[]])) = set es - {''+''}"
proof -
  have "set (concat (split_plus es [[]])) = set (filter (\<lambda>t. t \<noteq> ''+'') es)"
    by (simp add: concat_split_plus)
  then show ?thesis by auto
qed

lemma length_split_plus:
  "new \<noteq> [] \<Longrightarrow> length (split_plus es new) = length new + count_list es ''+''"
proof (induction es arbitrary: new)
  case Nil
  then show ?case by simp
next
  case (Cons e es)
  show ?case
  proof (cases "e = ''+''")
    case True
    then show ?thesis using Cons.IH[of "new @ [[]]"] by simp
  next
    case False
    have "butlast new @ [last new @ [e]] \<noteq> []" by simp
    from Cons.IH[OF this] show ?thesis using False Cons.prems by simp
  qed
qed

lemma split_plus_nonempty: "new \<noteq> [] \<Longrightarrow> split_plus es new \<noteq> []"
  by (induction es arbitrary: new) auto

subsection \<open>What the store reads\<close>

lemma dnf_matches: "dnf (map Match m @ ops) cur = dnf ops (cur @ m)"
  by (induction m arbitrary: cur) auto

lemma dnf_group_ops: "dnf (group_ops ms) [] = filter (\<lambda>g. g \<noteq> []) ms"
  by (induction ms) (auto simp: group_ops_def dnf_matches)

lemma dnf_append_boundary:
  "dnf (j @ Disjunction # ops) cur = dnf (j @ [Disjunction]) cur @ dnf ops []"
  by (induction j cur rule: dnf.induct) auto

lemma closed_group_ops: "closed (j @ group_ops ms) = (if ms = [] then closed j else True)"
  by (cases ms rule: rev_cases) (auto simp: closed_def group_ops_def)

lemma dnf_closed_append: "closed j \<Longrightarrow> dnf (j @ ops) [] = dnf j [] @ dnf ops []"
proof (cases j rule: rev_cases)
  case Nil
  then show ?thesis by simp
next
  case (snoc j' x)
  assume "closed j"
  with snoc have "x = Disjunction" by (simp add: closed_def)
  with snoc show ?thesis using dnf_append_boundary[of j' ops "[]"] by simp
qed

lemma dnf_closed_disj: "closed j \<Longrightarrow> dnf (j @ [Disjunction]) [] = dnf j []"
  using dnf_closed_append[of j "[Disjunction]"] by simp

subsection \<open>The invariant\<close>

lemma in_sync_init: "in_sync valid init"
  by (simp add: in_sync_def init_def closed_def store_groups_def)

lemma in_sync_reset:
  assumes "\<forall>g\<in>set (matches s). \<forall>t\<in>set g. valid t"
  shows "in_sync valid (snd (resetJournalMatches valid s))"
  using assms closed_group_ops[of "[]" "matches s"]
  by (simp add: reset_ok in_sync_def store_groups_def dnf_group_ops closed_def)

lemma add_ok:
  assumes "\<forall>t\<in>set match. t \<noteq> ''+'' \<longrightarrow> valid t"
  shows "addJournalMatch valid s match =
     (Returned, s\<lparr>journal := (if matches s \<noteq> [] then journal s @ [Disjunction] else journal s)
                               @ group_ops (split_plus match [[]]),
                   matches := matches s @ split_plus match [[]]\<rparr>)"
proof -
  have "\<forall>m\<in>set (split_plus match [[]]). \<forall>e\<in>set m. valid e"
    using assms tokens_split_plus[of match] by blast
  then show ?thesis by (simp add: addJournalMatch_def priv_add_ok)
qed

lemma add_bad:
  assumes prev: "\<forall>g\<in>set (matches s). \<forall>t\<in>set g. valid t"
    and bad: "\<exists>t\<in>set match. t \<noteq> ''+'' \<and> \<not> valid t"
  shows "\<exists>t. t \<in> set match \<and> t \<noteq> ''+'' \<and> \<not> valid t \<and>
     addJournalMatch valid s match =
       (Raised (InvalidMatch t), s\<lparr>journal := group_ops (matches s)\<rparr>)"
proof -
  have "\<exists>m\<in>set (split_plus match [[]]). \<exists>e\<in>set m. \<not> valid e"
    using bad tokens_split_plus[of match] by blast
  from priv_add_bad[OF this, of s] obtain t j' where
    t: "t \<in> \<Union> (set ` set (split_plus match [[]]))" "\<not> valid t"
    and r: "priv_addJournalMatches valid s (split_plus match [[]]) =
              (Raised (InvalidMatch t), s\<lparr>journal := j'\<rparr>)"
    by blast
  have "t \<in> set match" "t \<noteq> ''+''" using t(1) tokens_split_plus[of match] by auto
  moreover have "resetJournalMatches valid (s\<lparr>journal := j'\<rparr>) =
      (Returned, s\<lparr>journal := group_ops (matches s)\<rparr>)"
    using prev by (simp add: reset_ok)
  ultimately show ?thesis using t(2) r by (auto simp: addJournalMatch_def)
qed

lemma in_sync_add:
  assumes "in_sync valid s"
  shows "in_sync valid (snd (addJournalMatch valid s match))"
proof (cases "\<forall>t\<in>set match. t \<noteq> ''+'' \<longrightarrow> valid t")
  case True
  let ?new = "split_plus match [[]]"
  have sp: "?new \<noteq> []" by (simp add: split_plus_nonempty)
  have tok: "\<forall>m\<in>set ?new. \<forall>e\<in>set m. valid e"
    using True tokens_split_plus[of match] by blast
  have cl: "closed (journal s)" and sg: "dnf (journal s) [] = filter (\<lambda>g. g \<noteq> []) (matches s)"
    and prev: "\<forall>g\<in>set (matches s). \<forall>t\<in>set g. valid t"
    using assms by (simp_all add: in_sync_def store_groups_def)
  let ?j0 = "if matches s \<noteq> [] then journal s @ [Disjunction] else journal s"
  have cl0: "closed ?j0" using cl by (simp add: closed_def)
  have d0: "dnf ?j0 [] = dnf (journal s) []" using cl by (simp add: dnf_closed_disj)
  have "dnf (?j0 @ group_ops ?new) [] = filter (\<lambda>g. g \<noteq> []) (matches s @ ?new)"
    using dnf_closed_append[OF cl0, of "group_ops ?new"] d0 sg by (simp add: dnf_group_ops)
  moreover have "closed (?j0 @ group_ops ?new)" using sp by (simp add: closed_group_ops)
  moreover have "\<forall>g\<in>set (matches s @ ?new). \<forall>t\<in>set g. valid t"
    using prev tok by auto
  ultimately show ?thesis
    by (simp add: add_ok[OF True] in_sync_def store_groups_def del: set_append)
next
  case False
  then have bad: "\<exists>t\<in>set match. t \<noteq> ''+'' \<and> \<not> valid t" by blast
  have prev: "\<forall>g\<in>set (matches s). \<forall>t\<in>set g. valid t" using assms by (simp add: in_sync_def)
  from add_bad[OF prev bad] obtain t where
    "addJournalMatch valid s match =
       (Raised (InvalidMatch t), s\<lparr>journal := group_ops (matches s)\<rparr>)" by blast
  moreover have "snd (resetJournalMatches valid s) = s\<lparr>journal := group_ops (matches s)\<rparr>"
    using prev by (simp add: reset_ok)
  ultimately show ?thesis using in_sync_reset[OF prev] by simp
qed

lemma in_sync_del:
  assumes "in_sync valid s"
  shows "in_sync valid (snd (delJournalMatch valid s match))"
proof (cases "match \<in> set (matches s)")
  case True
  have "\<forall>g\<in>set (remove1 match (matches s)). \<forall>t\<in>set g. valid t"
    using assms set_remove1_subset[of match "matches s"] by (auto simp: in_sync_def)
  then have "in_sync valid
      (snd (resetJournalMatches valid (s\<lparr>matches := remove1 match (matches s)\<rparr>)))"
    using in_sync_reset[of "s\<lparr>matches := remove1 match (matches s)\<rparr>" valid] by simp
  then show ?thesis using True by (simp add: delJournalMatch_def)
next
  case False
  then show ?thesis using assms by (simp add: delJournalMatch_def)
qed

lemma in_sync_exec: "in_sync valid s \<Longrightarrow> in_sync valid (snd (exec valid s cs))"
proof (induction cs arbitrary: s)
  case Nil
  then show ?case by simp
next
  case (Cons c cs)
  have "in_sync valid (snd (apply_command valid s c))"
    using Cons.prems by (cases c) (simp_all add: in_sync_add in_sync_del)
  from Cons.IH[OF this] show ?case
    by (cases "apply_command valid s c"; cases "exec valid (snd (apply_command valid s c)) cs") simp
qed

lemma replay_in_sync:
  assumes "in_sync valid s"
  shows "priv_addJournalMatches valid init (matches s) =
           (Returned, \<lparr>journal = group_ops (matches s), matches = matches s\<rparr>)"
    and "store_groups (group_ops (matches s)) = store_groups (journal s)"
  using assms by (simp_all add: in_sync_def priv_add_ok init_def store_groups_def dnf_group_ops)

subsection \<open>The claims on the match filters\<close>



text \<open>
  Claim C2. In a state reached from the new filter, a specification with a token the
  store rejects makes \<open>addJournalMatch\<close> raise the store's error for a rejected token of
  the specification; the state it leaves is the one \<open>resetJournalMatches\<close> builds from
  the state before the call: the stored groups are unchanged, the store holds what a
  replay of them into an empty store gives, and this reads as the same groups as before
  the call. When the store accepts every token, the call returns and the groups of
  \<open>split_plus\<close> are appended to the stored groups. These groups hold the tokens other
  than the sentinel, in order, and there is one group more than there are sentinels.
\<close>

theorem addJournalMatch_all_or_nothing:
  assumes "s = snd (exec valid init cs)"
  shows "((\<exists>t\<in>set match. t \<noteq> ''+'' \<and> \<not> valid t) \<longrightarrow>
            (\<exists>t. t \<in> set match \<and> \<not> valid t \<and>
               addJournalMatch valid s match =
                 (Raised (InvalidMatch t), snd (resetJournalMatches valid s))) \<and>
            fst (resetJournalMatches valid s) = Returned \<and>
            matches (snd (resetJournalMatches valid s)) = matches s \<and>
            journal (snd (resetJournalMatches valid s)) =
              journal (snd (priv_addJournalMatches valid init (matches s))) \<and>
            store_groups (journal (snd (resetJournalMatches valid s))) = store_groups (journal s))
       \<and> ((\<forall>t\<in>set match. t \<noteq> ''+'' \<longrightarrow> valid t) \<longrightarrow>
            fst (addJournalMatch valid s match) = Returned \<and>
            matches (snd (addJournalMatch valid s match)) = matches s @ split_plus match [[]])
       \<and> concat (split_plus match [[]]) = filter (\<lambda>t. t \<noteq> ''+'') match
       \<and> length (split_plus match [[]]) = Suc (count_list match ''+'')"
proof -
  have sync: "in_sync valid s" using assms in_sync_exec[OF in_sync_init] by simp
  then have prev: "\<forall>g\<in>set (matches s). \<forall>t\<in>set g. valid t" by (simp add: in_sync_def)
  have rs: "resetJournalMatches valid s = (Returned, s\<lparr>journal := group_ops (matches s)\<rparr>)"
    using prev by (rule reset_ok)
  have A: "\<exists>t. t \<in> set match \<and> \<not> valid t \<and>
             addJournalMatch valid s match =
               (Raised (InvalidMatch t), snd (resetJournalMatches valid s))"
    if bad: "\<exists>t\<in>set match. t \<noteq> ''+'' \<and> \<not> valid t"
    using add_bad[OF prev bad] rs by auto
  have B: "fst (resetJournalMatches valid s) = Returned \<and>
           matches (snd (resetJournalMatches valid s)) = matches s \<and>
           journal (snd (resetJournalMatches valid s)) =
             journal (snd (priv_addJournalMatches valid init (matches s))) \<and>
           store_groups (journal (snd (resetJournalMatches valid s))) = store_groups (journal s)"
    using rs replay_in_sync[OF sync] by simp
  have C: "fst (addJournalMatch valid s match) = Returned \<and>
           matches (snd (addJournalMatch valid s match)) = matches s @ split_plus match [[]]"
    if ok: "\<forall>t\<in>set match. t \<noteq> ''+'' \<longrightarrow> valid t"
    by (simp add: add_ok[OF ok])
  have D: "concat (split_plus match [[]]) = filter (\<lambda>t. t \<noteq> ''+'') match"
    by (simp add: concat_split_plus)
  have E: "length (split_plus match [[]]) = Suc (count_list match ''+'')"
    by (simp add: length_split_plus)
  from A B C D E show ?thesis by blast
qed

theorem addJournalMatch_all_or_nothing_witness:
  "snd (exec field_value_token init [Add [''_COMM=sshd''], Add [''_UID=0'']]) =
      \<lparr>journal = [Match ''_COMM=sshd'', Disjunction, Disjunction, Match ''_UID=0'', Disjunction],
       matches = [[''_COMM=sshd''], [''_UID=0'']]\<rparr>
   \<and> addJournalMatch field_value_token
      (snd (exec field_value_token init [Add [''_COMM=sshd''], Add [''_UID=0'']]))
      [''_PID=1'', ''+'', ''bogus''] =
     (Raised (InvalidMatch ''bogus''),
      \<lparr>journal = [Match ''_COMM=sshd'', Disjunction, Match ''_UID=0'', Disjunction],
       matches = [[''_COMM=sshd''], [''_UID=0'']]\<rparr>)
   \<and> addJournalMatch field_value_token
      (snd (exec field_value_token init [Add [''_COMM=sshd''], Add [''_UID=0'']]))
      [''_PID=1'', ''+'', ''_GID=0''] =
     (Returned,
      \<lparr>journal = [Match ''_COMM=sshd'', Disjunction, Disjunction, Match ''_UID=0'', Disjunction,
                  Disjunction, Match ''_PID=1'', Disjunction, Match ''_GID=0'', Disjunction],
       matches = [[''_COMM=sshd''], [''_UID=0''], [''_PID=1''], [''_GID=0'']]\<rparr>)"
  using addJournalMatch_all_or_nothing[of
      "snd (exec field_value_token init [Add [''_COMM=sshd''], Add [''_UID=0'']])"
      field_value_token "[Add [''_COMM=sshd''], Add [''_UID=0'']]" "[''_PID=1'', ''+'', ''bogus'']"]
    addJournalMatch_all_or_nothing[of
      "snd (exec field_value_token init [Add [''_COMM=sshd''], Add [''_UID=0'']])"
      field_value_token "[Add [''_COMM=sshd''], Add [''_UID=0'']]" "[''_PID=1'', ''+'', ''_GID=0'']"]
  by (simp add: field_value_token_def addJournalMatch_def priv_addJournalMatches_def
      resetJournalMatches_def delJournalMatch_def init_def add_match_def add_disjunction_def
      flush_matches_def)

text \<open>
  Claim C3. A token list that equals none of the stored groups makes \<open>delJournalMatch\<close>
  raise "Match not found" and leaves the stored groups and the store as they were.
\<close>

theorem delJournalMatch_not_found:
  "match \<notin> set (matches s) \<Longrightarrow> delJournalMatch valid s match = (Raised MatchNotFound, s)"
  by (simp add: delJournalMatch_def)

theorem delJournalMatch_not_found_witness:
  "[''_UID=0'', ''+'', ''_PID=1'']
     \<notin> set (matches \<lparr>journal = [Match ''_UID=0'', Disjunction, Match ''_PID=1'', Disjunction],
                        matches = [[''_UID=0''], [''_PID=1'']]\<rparr>) \<and>
   delJournalMatch field_value_token
     \<lparr>journal = [Match ''_UID=0'', Disjunction, Match ''_PID=1'', Disjunction],
      matches = [[''_UID=0''], [''_PID=1'']]\<rparr> [''_UID=0'', ''+'', ''_PID=1''] =
   (Raised MatchNotFound,
     \<lparr>journal = [Match ''_UID=0'', Disjunction, Match ''_PID=1'', Disjunction],
      matches = [[''_UID=0''], [''_PID=1'']]\<rparr>)"
  using delJournalMatch_not_found[of "[''_UID=0'', ''+'', ''_PID=1'']"
      "\<lparr>journal = [Match ''_UID=0'', Disjunction, Match ''_PID=1'', Disjunction],
        matches = [[''_UID=0''], [''_PID=1'']]\<rparr>" field_value_token]
  by simp

text \<open>
  Claim C9. On a new filter, adding the tokens \<open>A B + C\<close> (all accepted by the store,
  none of them the sentinel) stores the groups \<open>[A, B]\<close> and \<open>[C]\<close>, and the status string
  is \<open>A B + C\<close>; deleting \<open>[A, B]\<close> then leaves the status string \<open>C\<close>, and the store holds
  what \<open>resetJournalMatches\<close> (a flush and a rebuild) gives for the single group \<open>[C]\<close>
  whatever the store held before.
\<close>

theorem add_then_delete_status:
  assumes "valid A" "valid B" "valid C" "A \<noteq> ''+''" "B \<noteq> ''+''" "C \<noteq> ''+''"
  shows "addJournalMatch valid init [A, B, ''+'', C] =
           (Returned, \<lparr>journal = [Match A, Match B, Disjunction, Match C, Disjunction],
                       matches = [[A, B], [C]]\<rparr>) \<and>
         status ret \<lparr>journal = [Match A, Match B, Disjunction, Match C, Disjunction],
                       matches = [[A, B], [C]]\<rparr> =
           ret @ [(''Journal matches'', Strings [A @ '' '' @ B @ '' + '' @ C])] \<and>
         delJournalMatch valid \<lparr>journal = [Match A, Match B, Disjunction, Match C, Disjunction],
                       matches = [[A, B], [C]]\<rparr> [A, B] =
           (Returned, \<lparr>journal = [Match C, Disjunction], matches = [[C]]\<rparr>) \<and>
         status ret \<lparr>journal = [Match C, Disjunction], matches = [[C]]\<rparr> =
           ret @ [(''Journal matches'', Strings [C])] \<and>
         resetJournalMatches valid \<lparr>journal = j, matches = [[C]]\<rparr> =
           (Returned, \<lparr>journal = [Match C, Disjunction], matches = [[C]]\<rparr>)"
  using assms
  by (simp add: addJournalMatch_def priv_addJournalMatches_def resetJournalMatches_def
      delJournalMatch_def status_def init_def add_match_def add_disjunction_def flush_matches_def)

theorem add_then_delete_status_witness:
  "addJournalMatch field_value_token init
      [''_SYSTEMD_UNIT=sshd.service'', ''_COMM=sshd'', ''+'', ''_UID=0''] =
     (Returned,
      \<lparr>journal = [Match ''_SYSTEMD_UNIT=sshd.service'', Match ''_COMM=sshd'', Disjunction,
                  Match ''_UID=0'', Disjunction],
       matches = [[''_SYSTEMD_UNIT=sshd.service'', ''_COMM=sshd''], [''_UID=0'']]\<rparr>) \<and>
   status []
      \<lparr>journal = [Match ''_SYSTEMD_UNIT=sshd.service'', Match ''_COMM=sshd'', Disjunction,
                  Match ''_UID=0'', Disjunction],
       matches = [[''_SYSTEMD_UNIT=sshd.service'', ''_COMM=sshd''], [''_UID=0'']]\<rparr> =
     [(''Journal matches'', Strings [''_SYSTEMD_UNIT=sshd.service _COMM=sshd + _UID=0''])] \<and>
   delJournalMatch field_value_token
      \<lparr>journal = [Match ''_SYSTEMD_UNIT=sshd.service'', Match ''_COMM=sshd'', Disjunction,
                  Match ''_UID=0'', Disjunction],
       matches = [[''_SYSTEMD_UNIT=sshd.service'', ''_COMM=sshd''], [''_UID=0'']]\<rparr>
      [''_SYSTEMD_UNIT=sshd.service'', ''_COMM=sshd''] =
     (Returned, \<lparr>journal = [Match ''_UID=0'', Disjunction], matches = [[''_UID=0'']]\<rparr>) \<and>
   status [] \<lparr>journal = [Match ''_UID=0'', Disjunction], matches = [[''_UID=0'']]\<rparr> =
     [(''Journal matches'', Strings [''_UID=0''])]"
  using add_then_delete_status[of field_value_token "''_SYSTEMD_UNIT=sshd.service''"
      "''_COMM=sshd''" "''_UID=0''" "[]" "[]"]
  by (simp add: field_value_token_def)

section \<open>Properties of the entry formatter\<close>

subsection \<open>Number formats and joins\<close>

lemma digit_char_digit: "d < 10 \<Longrightarrow> digit_char d \<in> set ''0123456789''"
  unfolding digit_char_def by (rule nth_mem) simp

lemma show_nat_digits: "set (show_nat n) \<subseteq> set ''0123456789''"
proof (induction n rule: show_nat.induct)
  case (1 n)
  show ?case
  proof (cases "n < 10")
    case True
    then show ?thesis using digit_char_digit[of n] by (subst show_nat.simps) simp
  next
    case False
    have "digit_char (n mod 10) \<in> set ''0123456789''" by (rule digit_char_digit) simp
    with False 1 show ?thesis by (subst show_nat.simps) simp
  qed
qed

lemma length_show_nat: "0 < k \<Longrightarrow> n < 10 ^ k \<Longrightarrow> length (show_nat n) \<le> k"
proof (induction n arbitrary: k rule: show_nat.induct)
  case (1 n)
  show ?case
  proof (cases "n < 10")
    case True
    then show ?thesis using "1.prems" by (subst show_nat.simps) simp
  next
    case False
    obtain k' where k: "k = Suc k'" using "1.prems"(1) by (cases k) auto
    have "k' \<noteq> 0" using False "1.prems"(2) k by (cases k') auto
    moreover have "n div 10 < 10 ^ k'" using "1.prems"(2) k by (simp add: less_mult_imp_div_less)
    ultimately have "length (show_nat (n div 10)) \<le> k'" using "1.IH"[OF False, of k'] by simp
    then show ?thesis using False k by (subst show_nat.simps) simp
  qed
qed

lemma show_nat_nonempty: "show_nat n \<noteq> []"
  by (subst show_nat.simps) simp

lemma digit_value_digit_char: "d < 10 \<Longrightarrow> digit_value (digit_char d) = d"
proof -
  assume "d < 10"
  then have "d = 0 \<or> d = 1 \<or> d = 2 \<or> d = 3 \<or> d = 4 \<or> d = 5 \<or> d = 6 \<or> d = 7 \<or> d = 8 \<or> d = 9"
    by arith
  then show ?thesis by (elim disjE) (simp_all add: digit_value_def digit_char_def)
qed

lemma decimal_value_snoc: "decimal_value (s @ [c]) = 10 * decimal_value s + digit_value c"
  by (simp add: decimal_value_def)

lemma decimal_value_show_nat: "decimal_value (show_nat n) = n"
proof (induction n rule: show_nat.induct)
  case (1 n)
  show ?case
  proof (cases "n < 10")
    case True
    then show ?thesis
      by (subst show_nat.simps) (simp add: decimal_value_def digit_value_digit_char)
  next
    case False
    have d: "digit_value (digit_char (n mod 10)) = n mod 10"
      by (rule digit_value_digit_char) simp
    have "decimal_value (show_nat n) =
        decimal_value (show_nat (n div 10) @ [digit_char (n mod 10)])"
      using False by (subst show_nat.simps) simp
    also have "\<dots> = 10 * (n div 10) + n mod 10"
      using "1.IH"[OF False] d by (simp add: decimal_value_snoc)
    finally show ?thesis by simp
  qed
qed

lemma decimal_value_zeros: "decimal_value (replicate k CHR ''0'' @ s) = decimal_value s"
proof (induction k)
  case 0
  show ?case by simp
next
  case (Suc k)
  have "decimal_value (CHR ''0'' # t) = decimal_value t" for t
    by (simp add: decimal_value_def digit_value_def)
  then show ?case using Suc by simp
qed

lemma fixed6_shape:
  "\<exists>ip frac. fixed6 n = ip @ ''.'' @ frac \<and> ip \<noteq> [] \<and> set ip \<subseteq> set ''0123456789'' \<and>
      length frac = 6 \<and> set frac \<subseteq> set ''0123456789'' \<and>
      decimal_value ip = n div 1000000 \<and> decimal_value frac = n mod 1000000"
proof -
  let ?f = "show_nat (n mod 1000000)"
  let ?ip = "show_nat (n div 1000000)"
  have len: "length ?f \<le> 6" by (rule length_show_nat) simp_all
  let ?frac = "replicate (6 - length ?f) CHR ''0'' @ ?f"
  have 1: "length ?frac = 6" using len by simp
  have 2: "set ?frac \<subseteq> set ''0123456789''" using show_nat_digits[of "n mod 1000000"] by auto
  have 3: "fixed6 n = ?ip @ ''.'' @ ?frac" by (simp add: fixed6_def Let_def)
  have 4: "decimal_value ?frac = n mod 1000000"
    by (simp only: decimal_value_zeros decimal_value_show_nat)
  have 5: "decimal_value ?ip = n div 1000000" by (rule decimal_value_show_nat)
  have 6: "?ip \<noteq> []" by (rule show_nat_nonempty)
  have 7: "set ?ip \<subseteq> set ''0123456789''" by (rule show_nat_digits)
  from 1 2 3 4 5 6 7 show ?thesis by blast
qed

subsection \<open>The float of a duration\<close>

lemma round_half_even_error:
  assumes "0 < d"
  shows "2 * \<bar>int (round_half_even n d) * int d - int n\<bar> \<le> int d"
proof -
  define q r where "q = n div d" and "r = n mod d"
  have n: "int n = int q * int d + int r" unfolding q_def r_def
    by (metis of_nat_add of_nat_mult div_mult_mod_eq)
  have r: "r < d" unfolding r_def using assms by simp
  show ?thesis
    using n r unfolding round_half_even_def Let_def q_def[symmetric] r_def[symmetric]
    by (auto simp: algebra_simps)
qed

lemma round_half_even_unique:
  assumes D: "0 < D" and c: "2 * \<bar>int X - int a * int D\<bar> < int D"
  shows "round_half_even X D = a"
proof -
  define P where "P = a * D"
  have c': "2 * \<bar>int X - int P\<bar> < int D" using c by (simp add: P_def)
  show ?thesis
  proof (cases "P \<le> X")
    case True
    have "int (X - P) = int X - int P" using True by (rule of_nat_diff)
    then have "2 * int (X - P) < int D" using c' by simp
    then have "int (2 * (X - P)) < int D" by simp
    then have lt: "2 * (X - P) < D" by (simp only: of_nat_less_iff)
    have "X < D * Suc a" using lt True by (simp add: P_def algebra_simps)
    moreover have "D * a \<le> X" using True by (simp add: P_def mult.commute)
    ultimately have q: "X div D = a" by (rule div_nat_eqI[rotated])
    have "X mod D = X - a * D" using q by (metis minus_div_mult_eq_mod)
    then show ?thesis using q lt by (simp add: round_half_even_def P_def)
  next
    case False
    have "X \<le> P" using False by simp
    then have "int (P - X) = int P - int X" by (rule of_nat_diff)
    moreover have "\<bar>int X - int P\<bar> = \<bar>int P - int X\<bar>" by (rule abs_minus_commute)
    ultimately have "2 * int (P - X) < int D" using c' by simp
    then have "int (2 * (P - X)) < int D" by simp
    then have lt: "2 * (P - X) < D" by (simp only: of_nat_less_iff)
    obtain b where a: "a = Suc b" using False by (cases a) (auto simp: P_def)
    define Q where "Q = b * D"
    have PQ: "P = Q + D" using a by (simp add: P_def Q_def)
    have bX: "Q \<le> X" using lt PQ by linarith
    then have "D * b \<le> X" by (simp add: Q_def mult.commute)
    moreover have "X < D * Suc b" using False a by (simp add: P_def mult.commute)
    ultimately have q: "X div D = b" by (rule div_nat_eqI)
    have r: "X mod D = X - b * D" using q by (metis minus_div_mult_eq_mod)
    have "D < 2 * (X - Q)" using lt PQ bX False by linarith
    then show ?thesis using q r a by (simp add: round_half_even_def Q_def)
  qed
qed

lemma scale_up_below:
  "0 < n \<Longrightarrow> n < 2 ^ 52 * d \<Longrightarrow>
   \<exists>up. scale_up n d k = (n * 2 ^ up, k + up) \<and> 2 ^ 52 * d \<le> n * 2 ^ up \<and> n * 2 ^ up < 2 ^ 53 * d"
proof (induction n d k rule: scale_up.induct)
  case (1 n d k)
  have step: "scale_up n d k = scale_up (2 * n) d (Suc k)"
    using "1.prems" by (subst scale_up.simps) simp
  show ?case
  proof (cases "2 ^ 52 * d \<le> 2 * n")
    case True
    then have "scale_up (2 * n) d (Suc k) = (2 * n, Suc k)" by (subst scale_up.simps) simp
    moreover have "2 * n < 2 ^ 53 * d" using "1.prems"(2) by simp
    ultimately show ?thesis using step True by (intro exI[of _ 1]) (simp add: mult.commute)
  next
    case False
    then have lt: "2 * n < 2 ^ 52 * d" by simp
    have c: "\<not> (n = 0 \<or> 2 ^ 52 * d \<le> n)" using "1.prems" by simp
    have pos: "0 < 2 * n" using "1.prems"(1) by simp
    from "1.IH"[OF c pos lt] obtain up where
      u: "scale_up (2 * n) d (Suc k) = (2 * n * 2 ^ up, Suc k + up)"
         "2 ^ 52 * d \<le> 2 * n * 2 ^ up" "2 * n * 2 ^ up < 2 ^ 53 * d" by blast
    show ?thesis using step u by (intro exI[of _ "Suc up"]) (simp add: mult.assoc mult.left_commute)
  qed
qed

text \<open>
  A duration below \<open>2^52\<close> microseconds (142 years) is printed exactly: the double of its
  seconds is nearer to it than half a microsecond.
\<close>

lemma float_micros_exact:
  assumes "a < 2 ^ 52"
  shows "float_micros a = a"
proof (cases "a = 0")
  case True
  have "scale_up 0 1000000 0 = (0, 0)" by (subst scale_up.simps) simp
  moreover have "scale_down 0 1000000 0 = (1000000, 0)" by (subst scale_down.simps) simp
  ultimately show ?thesis using True by (simp add: float_micros_def round_half_even_def)
next
  case False
  then have pos: "0 < a" by simp
  have "a < 2 ^ 52 * 1000000" using assms by simp
  from scale_up_below[OF pos this, of 0] obtain up where
    u: "scale_up a 1000000 0 = (a * 2 ^ up, up)" and lo: "2 ^ 52 * 1000000 \<le> a * 2 ^ up"
    and hi: "a * 2 ^ up < 2 ^ 53 * 1000000" by auto
  have d: "scale_down (a * 2 ^ up) 1000000 0 = (1000000, 0)"
    using hi by (subst scale_down.simps) simp
  define m where "m = round_half_even (a * 2 ^ up) 1000000"
  have fm: "float_micros a = round_half_even (m * 1000000) (2 ^ up)"
    by (simp add: float_micros_def u d m_def)
  have e: "2 * \<bar>int m * int 1000000 - int (a * 2 ^ up)\<bar> \<le> int 1000000"
    unfolding m_def by (rule round_half_even_error) simp
  have "a * 2 ^ up < 2 ^ 52 * 2 ^ up" using assms by simp
  with lo have "2 ^ 52 * (1000000::nat) < 2 ^ 52 * 2 ^ up" by linarith
  then have big: "(1000000::nat) < 2 ^ up" by simp
  have "int 1000000 < int (2 ^ up)" using big by (simp only: of_nat_less_iff)
  then have big': "(1000000::int) < 2 ^ up" by simp
  have e': "2 * \<bar>int m * 1000000 - int a * 2 ^ up\<bar> \<le> (1000000::int)" using e by simp
  have "2 * \<bar>int (m * 1000000) - int a * int (2 ^ up)\<bar> < int (2 ^ up)"
    using e' big' by simp
  from round_half_even_unique[OF _ this] show ?thesis by (simp add: fm)
qed

text \<open>Beyond that the float shows: \<open>10^16 + 1\<close> microseconds print as \<open>10000000000.000002\<close>.\<close>

lemma float_micros_rounds: "float_micros 10000000000000001 = 10000000000000002"
  unfolding float_micros_def
  by (simp add: scale_up.simps scale_down.simps round_half_even_def Let_def)

lemma percent_12_6f_shape:
  "\<exists>ip frac. percent_12_6f us =
        ''['' @ replicate (12 - (length (if us < 0 then ''-'' else '''') + length ip + 7)) CHR '' '' @
        (if us < 0 then ''-'' else '''') @ ip @ ''.'' @ frac @ '']'' \<and>
      ip \<noteq> [] \<and> set ip \<subseteq> set ''0123456789'' \<and>
      length frac = 6 \<and> set frac \<subseteq> set ''0123456789'' \<and>
      decimal_value ip = float_micros (nat \<bar>us\<bar>) div 1000000 \<and>
      decimal_value frac = float_micros (nat \<bar>us\<bar>) mod 1000000"
proof -
  obtain ip frac where f: "fixed6 (float_micros (nat \<bar>us\<bar>)) = ip @ ''.'' @ frac"
    and r: "ip \<noteq> []" "set ip \<subseteq> set ''0123456789''"
      "length frac = 6" "set frac \<subseteq> set ''0123456789''"
      "decimal_value ip = float_micros (nat \<bar>us\<bar>) div 1000000"
      "decimal_value frac = float_micros (nat \<bar>us\<bar>) mod 1000000"
    using fixed6_shape[of "float_micros (nat \<bar>us\<bar>)"] by blast
  have "percent_12_6f us =
        ''['' @ replicate (12 - (length (if us < 0 then ''-'' else '''') + length ip + 7)) CHR '' '' @
        (if us < 0 then ''-'' else '''') @ ip @ ''.'' @ frac @ '']''"
    using r(3) by (simp add: percent_12_6f_def Let_def f)
  with r show ?thesis by blast
qed

lemma str_join_snoc: "xs \<noteq> [] \<Longrightarrow> str_join sep (xs @ [y]) = str_join sep xs @ sep @ y"
  by (induction sep xs rule: str_join.induct) auto

lemma str_join_tail3:
  "\<exists>pre. str_join '' '' (hs @ [a, b, c]) = pre @ a @ '' '' @ b @ '' '' @ c"
proof (cases "hs = []")
  case True
  then show ?thesis by simp
next
  case False
  have 1: "str_join '' '' (hs @ [a]) = str_join '' '' hs @ '' '' @ a"
    using False by (rule str_join_snoc)
  have 2: "str_join '' '' ((hs @ [a]) @ [b]) = str_join '' '' (hs @ [a]) @ '' '' @ b"
    by (rule str_join_snoc) simp
  have 3: "str_join '' '' (((hs @ [a]) @ [b]) @ [c]) = str_join '' '' ((hs @ [a]) @ [b]) @ '' '' @ c"
    by (rule str_join_snoc) simp
  have "str_join '' '' (hs @ [a, b, c]) = (str_join '' '' hs @ '' '') @ a @ '' '' @ b @ '' '' @ c"
    using 1 2 3 by simp
  then show ?thesis by blast
qed

lemma kernel_logline:
  assumes id: "identifier_element ext e = Inr (Some ''kernel:'')"
    and mono: "kernel_monotonic e = Inr us"
  shows "logline ext e =
     Inr (str_join '' '' (host_elements ext e @ [''kernel:'', percent_12_6f us, message_element ext e]))"
  using id mono by (simp add: logline_def logelements_def)

lemma kernel_monotonic_select:
  assumes "map_of e ''_SOURCE_MONOTONIC_TIMESTAMP'' = Some (JTimeDelta us) \<or>
       (map_of e ''_SOURCE_MONOTONIC_TIMESTAMP'' = None \<and>
        map_of e ''__MONOTONIC_TIMESTAMP'' = Some (JMonotonic us boot))"
  shows "kernel_monotonic e = Inr us"
  using assms by (auto simp: kernel_monotonic_def)

lemma fixed6_example: "fixed6 1234567 = ''1.234567''"
  unfolding fixed6_def Let_def
  by (simp add: show_nat.simps digit_char_def)

lemma percent_12_6f_example: "percent_12_6f 1234567 = ''[    1.234567]''"
proof -
  have f: "float_micros 1234567 = 1234567" by (rule float_micros_exact) simp
  have n: "nat \<bar>1234567\<bar> = 1234567" by simp
  have r: "replicate (12 - 8) CHR '' '' = ''    ''" by (simp add: numeral_eq_Suc)
  show ?thesis
    unfolding percent_12_6f_def Let_def n f fixed6_example
    using r by simp
qed

lemma kernel_entry_logline:
  "logline sample_externals kernel_entry = Inr ''host1 kernel: [    1.234567] usb 1-1: new device''"
  by (simp add: logline_def logelements_def identifier_element_def host_elements_def
      message_element_def kernel_monotonic_def sample_externals_def kernel_entry_def
      percent_12_6f_example)

lemma sample_mktime:
  "posix_mktime 0 (2013, 11, 2, 0, 2, 5) = 1383350525"
  by (simp add: posix_mktime_def days_since_epoch_def days_before_year_def
      days_before_month_def leap_year_def)



subsection \<open>The claims on the entry formatter\<close>



text \<open>
  Claim C7, as the code has it. The counterexample is an entry of the kernel, with host,
  identifier, message and date, that has no monotonic field: its identifier element is
  exactly \<open>kernel:\<close>, and no line is formatted for it, with or without a bracketed time:
  \<open>formatJournalEntry\<close> raises.
\<close>

theorem kernel_line_missing_field_counterexample:
  "identifier_element sample_externals bare_kernel_entry = Inr (Some ''kernel:'') \<and>
   logline sample_externals bare_kernel_entry =
     Inl (TypeError ''NoneType object is not subscriptable'') \<and>
   formatJournalEntry sample_externals bare_kernel_entry =
     Inl (TypeError ''NoneType object is not subscriptable'')"
proof -
  have i: "identifier_element sample_externals bare_kernel_entry = Inr (Some ''kernel:'')"
    by (simp add: identifier_element_def sample_externals_def bare_kernel_entry_def)
  have k: "kernel_monotonic bare_kernel_entry =
      Inl (TypeError ''NoneType object is not subscriptable'')"
    by (simp add: kernel_monotonic_def bare_kernel_entry_def)
  have l: "logline sample_externals bare_kernel_entry =
     Inl (TypeError ''NoneType object is not subscriptable'')"
    by (simp add: logline_def logelements_def i k)
  have f: "formatJournalEntry sample_externals bare_kernel_entry =
     Inl (TypeError ''NoneType object is not subscriptable'')"
    by (simp add: formatJournalEntry_def l)
  from i l f show ?thesis by blast
qed

text \<open>
  Claim C7, amended. When the identifier element is exactly \<open>kernel:\<close>, and the monotonic
  time \<open>us\<close> is the duration under \<open>_SOURCE_MONOTONIC_TIMESTAMP\<close> or, the entry having no
  such key, the duration of the pair under \<open>__MONOTONIC_TIMESTAMP\<close>, then the line is the
  join of the host element (if any), \<open>kernel:\<close>, the bracketed time and the message: the
  bracketed time follows \<open>kernel:\<close> after the single blank of the join. The bracketed
  time is \<open>[\<close>, blanks that pad sign and digits to twelve characters, a minus sign for a
  negative duration, the decimal digits of the seconds, a point, exactly six decimal
  digits and \<open>]\<close>. The digits read as the seconds and the millionths that the float of the
  duration prints to, which for a duration below \<open>2^52\<close> microseconds are the whole
  seconds and the remaining microseconds of the duration itself. The line
  \<open>formatJournalEntry\<close> returns is this line, and it returns when the entry has a date.
\<close>

theorem kernel_line_has_monotonic:
  assumes id: "identifier_element ext e = Inr (Some ''kernel:'')"
    and mono: "map_of e ''_SOURCE_MONOTONIC_TIMESTAMP'' = Some (JTimeDelta us) \<or>
       (map_of e ''_SOURCE_MONOTONIC_TIMESTAMP'' = None \<and>
        map_of e ''__MONOTONIC_TIMESTAMP'' = Some (JMonotonic us boot))"
  shows "logline ext e =
           Inr (str_join '' '' (host_elements ext e @
                  [''kernel:'', percent_12_6f us, message_element ext e])) \<and>
         (\<exists>pre. logline ext e =
             Inr (pre @ ''kernel:'' @ '' '' @ percent_12_6f us @ '' '' @ message_element ext e)) \<and>
         (\<exists>ip frac.
             percent_12_6f us =
               ''['' @
               replicate (12 - (length (if us < 0 then ''-'' else '''') + length ip + 7)) CHR '' '' @
               (if us < 0 then ''-'' else '''') @ ip @ ''.'' @ frac @ '']'' \<and>
             ip \<noteq> [] \<and> set ip \<subseteq> set ''0123456789'' \<and>
             length frac = 6 \<and> set frac \<subseteq> set ''0123456789'' \<and>
             decimal_value ip = float_micros (nat \<bar>us\<bar>) div 1000000 \<and>
             decimal_value frac = float_micros (nat \<bar>us\<bar>) mod 1000000 \<and>
             (\<bar>us\<bar> < 2 ^ 52 \<longrightarrow>
                decimal_value ip = nat \<bar>us\<bar> div 1000000 \<and>
                decimal_value frac = nat \<bar>us\<bar> mod 1000000)) \<and>
         (\<forall>t3 ts. formatJournalEntry ext e = Inr (t3, ts) \<longrightarrow>
             Inr (snd (snd t3)) = logline ext e) \<and>
         (\<forall>d. entry_date e = Inr d \<longrightarrow>
             (\<exists>ts. formatJournalEntry ext e =
                Inr (([], isoformat ext d,
                      str_join '' '' (host_elements ext e @
                        [''kernel:'', percent_12_6f us, message_element ext e])), ts)))"
proof -
  have l: "logline ext e =
           Inr (str_join '' '' (host_elements ext e @
                  [''kernel:'', percent_12_6f us, message_element ext e]))"
    using kernel_logline[OF id kernel_monotonic_select[OF mono]] .
  obtain pre where pre: "str_join '' '' (host_elements ext e @
                  [''kernel:'', percent_12_6f us, message_element ext e]) =
      pre @ ''kernel:'' @ '' '' @ percent_12_6f us @ '' '' @ message_element ext e"
    using str_join_tail3 by blast
  have p: "\<exists>pre. logline ext e =
             Inr (pre @ ''kernel:'' @ '' '' @ percent_12_6f us @ '' '' @ message_element ext e)"
    unfolding l pre by (rule exI[of _ pre]) (rule refl)
  have f: "\<forall>t3 ts. formatJournalEntry ext e = Inr (t3, ts) \<longrightarrow> Inr (snd (snd t3)) = logline ext e"
    by (auto simp: formatJournalEntry_def split: sum.splits)
  have g: "\<forall>d. entry_date e = Inr d \<longrightarrow>
             (\<exists>ts. formatJournalEntry ext e =
                Inr (([], isoformat ext d,
                      str_join '' '' (host_elements ext e @
                        [''kernel:'', percent_12_6f us, message_element ext e])), ts))"
    by (simp add: formatJournalEntry_def l)
  obtain ip frac where s: "percent_12_6f us =
               ''['' @
               replicate (12 - (length (if us < 0 then ''-'' else '''') + length ip + 7)) CHR '' '' @
               (if us < 0 then ''-'' else '''') @ ip @ ''.'' @ frac @ '']''"
      "ip \<noteq> []" "set ip \<subseteq> set ''0123456789''"
      "length frac = 6" "set frac \<subseteq> set ''0123456789''"
      "decimal_value ip = float_micros (nat \<bar>us\<bar>) div 1000000"
      "decimal_value frac = float_micros (nat \<bar>us\<bar>) mod 1000000"
    using percent_12_6f_shape[of us] by blast
  have x: "decimal_value ip = nat \<bar>us\<bar> div 1000000 \<and>
           decimal_value frac = nat \<bar>us\<bar> mod 1000000" if "\<bar>us\<bar> < 2 ^ 52"
  proof -
    have "nat \<bar>us\<bar> < 2 ^ 52" using that by (simp add: nat_less_iff)
    then have "float_micros (nat \<bar>us\<bar>) = nat \<bar>us\<bar>" by (rule float_micros_exact)
    then show ?thesis using s(6,7) by simp
  qed
  have v: "\<exists>ip frac.
             percent_12_6f us =
               ''['' @
               replicate (12 - (length (if us < 0 then ''-'' else '''') + length ip + 7)) CHR '' '' @
               (if us < 0 then ''-'' else '''') @ ip @ ''.'' @ frac @ '']'' \<and>
             ip \<noteq> [] \<and> set ip \<subseteq> set ''0123456789'' \<and>
             length frac = 6 \<and> set frac \<subseteq> set ''0123456789'' \<and>
             decimal_value ip = float_micros (nat \<bar>us\<bar>) div 1000000 \<and>
             decimal_value frac = float_micros (nat \<bar>us\<bar>) mod 1000000 \<and>
             (\<bar>us\<bar> < 2 ^ 52 \<longrightarrow>
                decimal_value ip = nat \<bar>us\<bar> div 1000000 \<and>
                decimal_value frac = nat \<bar>us\<bar> mod 1000000)"
    using s x by blast
  from l p v f g show ?thesis by blast
qed

theorem kernel_line_has_monotonic_witness:
  "identifier_element sample_externals kernel_entry = Inr (Some ''kernel:'') \<and>
   map_of kernel_entry ''_SOURCE_MONOTONIC_TIMESTAMP'' = None \<and>
   map_of kernel_entry ''__MONOTONIC_TIMESTAMP'' = Some (JMonotonic 1234567 ''boot0'') \<and>
   logline sample_externals kernel_entry = Inr ''host1 kernel: [    1.234567] usb 1-1: new device''"
proof -
  have id: "identifier_element sample_externals kernel_entry = Inr (Some ''kernel:'')"
    by (simp add: identifier_element_def sample_externals_def kernel_entry_def)
  have m: "map_of kernel_entry ''_SOURCE_MONOTONIC_TIMESTAMP'' = None \<and>
     map_of kernel_entry ''__MONOTONIC_TIMESTAMP'' = Some (JMonotonic 1234567 ''boot0'')"
    by (simp add: kernel_entry_def)
  note p = percent_12_6f_example
  have h: "host_elements sample_externals kernel_entry = [''host1'']"
    by (simp add: host_elements_def sample_externals_def kernel_entry_def)
  have g: "message_element sample_externals kernel_entry = ''usb 1-1: new device''"
    by (simp add: message_element_def sample_externals_def kernel_entry_def)
  from kernel_line_has_monotonic[OF id, of 1234567 "''boot0''"] m
  have "logline sample_externals kernel_entry =
           Inr (str_join '' '' (host_elements sample_externals kernel_entry @
                  [''kernel:'', percent_12_6f 1234567, message_element sample_externals kernel_entry]))"
    by blast
  then show ?thesis using id m by (simp add: p h g)
qed

text \<open>
  Claim C10. When the identifier element is exactly \<open>kernel:\<close> and the entry has neither
  \<open>_SOURCE_MONOTONIC_TIMESTAMP\<close> nor \<open>__MONOTONIC_TIMESTAMP\<close>, \<open>formatJournalEntry\<close>
  raises the \<open>TypeError\<close> of subscripting \<open>None\<close> and returns no entry.
\<close>

theorem kernel_without_monotonic_raises:
  assumes "identifier_element ext e = Inr (Some ''kernel:'')"
    and "map_of e ''_SOURCE_MONOTONIC_TIMESTAMP'' = None"
    and "map_of e ''__MONOTONIC_TIMESTAMP'' = None"
  shows "formatJournalEntry ext e = Inl (TypeError ''NoneType object is not subscriptable'')"
  using assms
  by (simp add: formatJournalEntry_def logline_def logelements_def kernel_monotonic_def)

theorem kernel_without_monotonic_raises_witness:
  "identifier_element sample_externals [(''_COMM'', JStr ''kernel''), (''MESSAGE'', JStr ''x'')]
     = Inr (Some ''kernel:'') \<and>
   map_of [(''_COMM'', JStr ''kernel''), (''MESSAGE'', JStr ''x'')] ''_SOURCE_MONOTONIC_TIMESTAMP'' = None \<and>
   map_of [(''_COMM'', JStr ''kernel''), (''MESSAGE'', JStr ''x'')] ''__MONOTONIC_TIMESTAMP'' = None \<and>
   formatJournalEntry sample_externals [(''_COMM'', JStr ''kernel''), (''MESSAGE'', JStr ''x'')]
     = Inl (TypeError ''NoneType object is not subscriptable'')"
proof -
  have id: "identifier_element sample_externals [(''_COMM'', JStr ''kernel''), (''MESSAGE'', JStr ''x'')]
     = Inr (Some ''kernel:'')"
    by (simp add: identifier_element_def sample_externals_def)
  have a: "map_of [(''_COMM'', JStr ''kernel''), (''MESSAGE'', JStr ''x'')] ''_SOURCE_MONOTONIC_TIMESTAMP'' = None"
    by simp
  have b: "map_of [(''_COMM'', JStr ''kernel''), (''MESSAGE'', JStr ''x'')] ''__MONOTONIC_TIMESTAMP'' = None"
    by simp
  from kernel_without_monotonic_raises[OF id a b] id a b show ?thesis by blast
qed

section \<open>Properties of the main loop\<close>

subsection \<open>One pass of the inner loop\<close>

lemma drain_inactive:
  "\<not> active W (active_reads s) \<Longrightarrow> drain W s = (Returned, polled s False)"
  by (subst drain.simps) (simp add: read_active_def polled_def)

lemma drain_fault:
  "active W (active_reads s) \<Longrightarrow> get_next (reader W) (jrnl s) = (None, j) \<Longrightarrow>
   drain W s = (Returned, fetched s j False)"
  by (subst drain.simps) (simp add: read_active_def fetched_def)

lemma drain_no_entry:
  "active W (active_reads s) \<Longrightarrow> get_next (reader W) (jrnl s) = (Some [], j) \<Longrightarrow>
   drain W s = (Returned, fetched s j False)"
  by (subst drain.simps) (simp add: read_active_def fetched_def)

lemma drain_format_error:
  "active W (active_reads s) \<Longrightarrow> get_next (reader W) (jrnl s) = (Some e, j) \<Longrightarrow> e \<noteq> [] \<Longrightarrow>
   formatJournalEntry (helpers W) e = Inl err \<Longrightarrow>
   drain W s = (Raised err, fetched s j True)"
  by (subst drain.simps) (simp add: read_active_def fetched_def)

lemma drain_entry:
  "active W (active_reads s) \<Longrightarrow> get_next (reader W) (jrnl s) = (Some e, j) \<Longrightarrow> e \<noteq> [] \<Longrightarrow>
   formatJournalEntry (helpers W) e = Inr entry \<Longrightarrow>
   drain W s = (if 100 \<le> Suc (modified s) then (Returned, handled W s j entry)
                else drain W (handled W s j entry))"
  by (subst drain.simps) (simp add: read_active_def handled_def Let_def)

lemma drain_readable:
  assumes a: "active W (active_reads s)" and r: "readable W (jrnl s)"
  shows "\<exists>s'. drain W s = (if 100 \<le> Suc (modified s) then (Returned, s') else drain W s') \<and>
     jrnl s' = snd (get_next (reader W) (jrnl s)) \<and> modified s' = Suc (modified s) \<and>
     ticks s' = Suc (ticks s) \<and> active_reads s' = Suc (active_reads s) \<and>
     processed_events (trace s') = Suc (processed_events (trace s)) \<and>
     (\<exists>evs. trace s' = trace s @ PollActive True # evs)"
proof -
  obtain e j where g: "get_next (reader W) (jrnl s) = (Some e, j)" and e: "e \<noteq> []"
    using r by (cases "get_next (reader W) (jrnl s)") (auto simp: readable_def split: option.splits)
  obtain entry where f: "formatJournalEntry (helpers W) e = Inr entry"
    using r g by (auto simp: readable_def split: sum.splits)
  show ?thesis
    by (rule exI[of _ "handled W s j entry"])
       (simp add: drain_entry[OF a g e f] g handled_def processed_events_def)
qed

lemma drain_exhausted:
  assumes a: "active W (active_reads s)" and x: "exhausted W (jrnl s)"
  shows "\<exists>s'. drain W s = (Returned, s') \<and> modified s' = modified s \<and>
     ticks s' = Suc (ticks s) \<and> active_reads s' = Suc (active_reads s) \<and>
     jrnl s' = snd (get_next (reader W) (jrnl s)) \<and>
     processed_events (trace s') = processed_events (trace s)"
proof (cases "get_next (reader W) (jrnl s)")
  case (Pair r j)
  show ?thesis
  proof (cases r)
    case None
    show ?thesis
      by (rule exI[of _ "fetched s j False"])
         (simp add: drain_fault[OF a Pair[unfolded None]] Pair fetched_def processed_events_def)
  next
    case (Some e)
    with x Pair have "e = []" by (simp add: exhausted_def)
    with Some Pair have g: "get_next (reader W) (jrnl s) = (Some [], j)" by simp
    show ?thesis
      by (rule exI[of _ "fetched s j False"])
         (simp add: drain_no_entry[OF a g] g fetched_def processed_events_def)
  qed
qed

subsection \<open>The inner loop as a whole\<close>

lemma drain_post_trans:
  assumes h: "drain_post W (handled W s j entry) s'" and a: "active W (active_reads s)"
    and m: "Suc (modified s) < 100"
  shows "drain_post W s s'"
  using h a m unfolding drain_post_def handled_def processed_events_def
  by auto

lemma drain_post_drain: "drain_post W s (snd (drain W s))"
proof (induction "100 - modified s" arbitrary: s rule: less_induct)
  case less
  show ?case
  proof (cases "active W (active_reads s)")
    case False
    then show ?thesis
      by (simp add: drain_inactive drain_post_def polled_def processed_events_def)
  next
    case a: True
    obtain r j where g: "get_next (reader W) (jrnl s) = (r, j)"
      by (cases "get_next (reader W) (jrnl s)")
    show ?thesis
    proof (cases r)
      case None
      with g have "drain W s = (Returned, fetched s j False)" using drain_fault[OF a] by simp
      then show ?thesis using a by (simp add: drain_post_def fetched_def processed_events_def)
    next
      case (Some e)
      note g' = g[unfolded Some]
      show ?thesis
      proof (cases "e = []")
        case True
        with g' have "drain W s = (Returned, fetched s j False)" using drain_no_entry[OF a] by simp
        then show ?thesis using a by (simp add: drain_post_def fetched_def processed_events_def)
      next
        case e: False
        show ?thesis
        proof (cases "formatJournalEntry (helpers W) e")
          case (Inl err)
          from drain_format_error[OF a g' e Inl]
          show ?thesis using a by (simp add: drain_post_def fetched_def processed_events_def)
        next
          case (Inr entry)
          note d = drain_entry[OF a g' e Inr]
          show ?thesis
          proof (cases "100 \<le> Suc (modified s)")
            case True
            with d have "drain W s = (Returned, handled W s j entry)" by simp
            then show ?thesis using a
              by (simp add: drain_post_def handled_def processed_events_def)
          next
            case False
            with d have eq: "drain W s = drain W (handled W s j entry)" by simp
            have "100 - modified (handled W s j entry) < 100 - modified s"
              using False by (simp add: handled_def)
            from less[OF this] have h: "drain_post W (handled W s j entry) (snd (drain W s))"
              by (simp add: eq)
            have m: "Suc (modified s) < 100" using False by simp
            show ?thesis using h a m by (rule drain_post_trans)
          qed
        qed
      qed
    qed
  qed
qed

lemma reads_ahead_Suc: "reads_ahead W j (Suc k) = snd (get_next (reader W) (reads_ahead W j k))"
  by (induction k arbitrary: j) simp_all

lemma drain_skip:
  assumes "\<forall>i<k. readable W (reads_ahead W (jrnl s) i)"
    and "\<forall>i<k. active W (active_reads s + i)"
    and "modified s + k < 100"
  shows "\<exists>s'. drain W s = drain W s' \<and> jrnl s' = reads_ahead W (jrnl s) k \<and>
     modified s' = modified s + k \<and> ticks s' = ticks s + k \<and>
     active_reads s' = active_reads s + k \<and>
     processed_events (trace s') = processed_events (trace s) + k"
  using assms
proof (induction k arbitrary: s)
  case 0
  show ?case by (rule exI[of _ s]) simp
next
  case (Suc k)
  have a: "active W (active_reads s)" using Suc.prems(2) by (metis add.right_neutral zero_less_Suc)
  have r: "readable W (jrnl s)" using Suc.prems(1) by (metis reads_ahead.simps(1) zero_less_Suc)
  from drain_readable[OF a r] obtain s1 where
    d: "drain W s = (if 100 \<le> Suc (modified s) then (Returned, s1) else drain W s1)"
    and s1: "jrnl s1 = snd (get_next (reader W) (jrnl s))" "modified s1 = Suc (modified s)"
      "ticks s1 = Suc (ticks s)" "active_reads s1 = Suc (active_reads s)"
      "processed_events (trace s1) = Suc (processed_events (trace s))"
    by blast
  have d': "drain W s = drain W s1" using d Suc.prems(3) by simp
  have p1: "\<forall>i<k. readable W (reads_ahead W (jrnl s1) i)"
  proof (intro allI impI)
    fix i assume "i < k"
    then have "Suc i < Suc k" by simp
    with Suc.prems(1) have "readable W (reads_ahead W (jrnl s) (Suc i))" by blast
    then show "readable W (reads_ahead W (jrnl s1) i)" by (simp add: s1)
  qed
  have p2: "\<forall>i<k. active W (active_reads s1 + i)"
  proof (intro allI impI)
    fix i assume "i < k"
    then have "Suc i < Suc k" by simp
    with Suc.prems(2) have "active W (active_reads s + Suc i)" by blast
    then show "active W (active_reads s1 + i)" by (simp add: s1)
  qed
  have p3: "modified s1 + k < 100" using Suc.prems(3) by (simp add: s1)
  from Suc.IH[OF p1 p2 p3] obtain s' where
    "drain W s1 = drain W s'" "jrnl s' = reads_ahead W (jrnl s1) k"
     "modified s' = modified s1 + k" "ticks s' = ticks s1 + k"
     "active_reads s' = active_reads s1 + k"
     "processed_events (trace s') = processed_events (trace s1) + k"
    by blast
  then show ?case using d' s1 by (intro exI[of _ s']) simp
qed

lemma processed_ticket_loop:
  "processed_events (trace (ticket_loop ts s)) = processed_events (trace s)"
  by (induction ts arbitrary: s) (simp_all add: processed_events_def)

lemma wait_cycle_processed:
  "processed_events (trace (snd (wait_cycle W s))) \<le> processed_events (trace s) + 100"
proof -
  let ?s1 = "s\<lparr>jrnl := wait (reader W) (jrnl s), trace := trace s @ [Wait]\<rparr>"
  let ?s2 = "snd (read_idle W ?s1)"
  let ?s0 = "?s2\<lparr>modified := 0\<rparr>"
  have p0: "processed_events (trace ?s0) = processed_events (trace s)"
    by (simp add: read_idle_def processed_events_def)
  have post: "drain_post W ?s0 (snd (drain W ?s0))" by (rule drain_post_drain)
  then have d: "processed_events (trace (snd (drain W ?s0))) \<le> processed_events (trace s) + 100"
    using p0 by (simp add: drain_post_def)
  show ?thesis
  proof (cases "idle W (idle_reads ?s1)")
    case True
    then show ?thesis by (simp add: wait_cycle_def read_idle_def processed_events_def)
  next
    case False
    then have w: "wait_cycle W s =
        (case drain W ?s0 of
             (Raised err, s3) \<Rightarrow> (Raised err, s3)
           | (Returned, s3) \<Rightarrow> (Returned, if modified s3 \<noteq> 0 then ticket_drain s3 else s3))"
      by (simp add: wait_cycle_def read_idle_def)
    show ?thesis
    proof (cases "drain W ?s0")
      case (Pair out s3)
      with d have d3: "processed_events (trace s3) \<le> processed_events (trace s) + 100" by simp
      show ?thesis
        using d3 by (cases out) (simp_all add: w Pair ticket_drain_def processed_ticket_loop)
    qed
  qed
qed

lemma drain_full:
  assumes m: "modified s = 0"
    and a: "\<forall>i<100. active W (active_reads s + i)"
    and r: "\<forall>i<100. readable W (reads_ahead W (jrnl s) i)"
  shows "fst (drain W s) = Returned \<and> modified (snd (drain W s)) = 100 \<and>
         ticks (snd (drain W s)) = ticks s + 100 \<and>
         active_reads (snd (drain W s)) = active_reads s + 100 \<and>
         jrnl (snd (drain W s)) = reads_ahead W (jrnl s) 100"
proof -
  have "\<forall>i<99. readable W (reads_ahead W (jrnl s) i)" using r by simp
  moreover have "\<forall>i<99. active W (active_reads s + i)" using a by simp
  moreover have "modified s + 99 < 100" using m by simp
  ultimately obtain s' where s': "drain W s = drain W s'" "jrnl s' = reads_ahead W (jrnl s) 99"
     "modified s' = modified s + 99" "ticks s' = ticks s + 99"
     "active_reads s' = active_reads s + 99"
    using drain_skip[of 99 W s] by blast
  have a': "active W (active_reads s')" using a s'(5) by simp
  have r': "readable W (jrnl s')" using r s'(2) by simp
  from drain_readable[OF a' r'] obtain s'' where
    "drain W s' = (if 100 \<le> Suc (modified s') then (Returned, s'') else drain W s'')"
    "jrnl s'' = snd (get_next (reader W) (jrnl s'))" "modified s'' = Suc (modified s')"
    "ticks s'' = Suc (ticks s')" "active_reads s'' = Suc (active_reads s')"
    by blast
  then show ?thesis using s' m reads_ahead_Suc[of W "jrnl s" 99] by simp
qed

lemma drain_until_exhausted:
  assumes m: "modified s = 0" and k: "k < 100"
    and a: "\<forall>i\<le>k. active W (active_reads s + i)"
    and r: "\<forall>i<k. readable W (reads_ahead W (jrnl s) i)"
    and x: "exhausted W (reads_ahead W (jrnl s) k)"
  shows "fst (drain W s) = Returned \<and> modified (snd (drain W s)) = k \<and>
         ticks (snd (drain W s)) = ticks s + k + 1"
proof -
  have "\<forall>i<k. active W (active_reads s + i)" using a by simp
  moreover have "modified s + k < 100" using m k by simp
  ultimately obtain s' where s': "drain W s = drain W s'" "jrnl s' = reads_ahead W (jrnl s) k"
     "modified s' = modified s + k" "ticks s' = ticks s + k"
     "active_reads s' = active_reads s + k"
    using drain_skip[OF r] by blast
  have a': "active W (active_reads s')" using a s'(5) by simp
  have x': "exhausted W (jrnl s')" using x s'(2) by simp
  from drain_exhausted[OF a' x'] obtain s'' where
    "drain W s' = (Returned, s'')" "modified s'' = modified s'" "ticks s'' = Suc (ticks s')"
    by blast
  then show ?thesis using s' m by simp
qed

lemma drain_until_cleared:
  assumes m: "modified s = 0" and k: "k < 100"
    and a: "\<forall>i<k. active W (active_reads s + i)"
    and c: "\<not> active W (active_reads s + k)"
    and r: "\<forall>i<k. readable W (reads_ahead W (jrnl s) i)"
  shows "fst (drain W s) = Returned \<and> modified (snd (drain W s)) = k \<and>
         ticks (snd (drain W s)) = ticks s + k"
proof -
  have "modified s + k < 100" using m k by simp
  then obtain s' where s': "drain W s = drain W s'" "jrnl s' = reads_ahead W (jrnl s) k"
     "modified s' = modified s + k" "ticks s' = ticks s + k"
     "active_reads s' = active_reads s + k"
    using drain_skip[OF r a] by blast
  have "\<not> active W (active_reads s')" using c s'(5) by simp
  then have "drain W s' = (Returned, polled s' False)" by (rule drain_inactive)
  then show ?thesis using s' m by (simp add: polled_def)
qed

lemma kernel_entry_formats:
  "formatJournalEntry sample_externals kernel_entry =
     Inr (([], ''2013-11-2'', ''host1 kernel: [    1.234567] usb 1-1: new device''), 1383350525.25)"
  by (simp add: formatJournalEntry_def kernel_entry_logline entry_date_def)
     (simp add: kernel_entry_def sample_externals_def timetuple_def show_nat.simps digit_char_def
        sample_mktime)

lemma endless_readable: "readable endless_world j"
  by (simp add: readable_def endless_world_def kernel_entry_formats) (simp add: kernel_entry_def)

lemma endless_reads_ahead: "reads_ahead endless_world j k = j + k"
  by (induction k arbitrary: j) (simp_all add: endless_world_def)

subsection \<open>The end of the loop\<close>

lemma ticket_loop_result:
  "ticket_loop ts s =
     s\<lparr>pending := [], jail_queue := jail_queue s @ ts,
       trace := trace s @ concat (map (\<lambda>t. [ToBan t, PutFailTicket t]) ts) @ [ToBanEmpty, Cleanup]\<rparr>"
  by (induction ts arbitrary: s) simp_all

lemma ticket_drain_no_poll:
  "active_reads (ticket_drain s) = active_reads s \<and>
   jail_queue (ticket_drain s) = jail_queue s @ pending s \<and> pending (ticket_drain s) = [] \<and>
   ticks (ticket_drain s) = ticks s"
  by (simp add: ticket_drain_def ticket_loop_result)

lemma main_loop_cleared:
  "\<not> active W (active_reads s) \<Longrightarrow> main_loop W (Suc n) s = Some (Returned, polled s False)"
  by (simp add: read_active_def polled_def)

lemma wait_cycle_cleared:
  assumes "\<not> active W (active_reads s)"
  shows "fst (wait_cycle W s) = Returned \<and>
     ticks (snd (wait_cycle W s)) = ticks s \<and>
     jail_queue (snd (wait_cycle W s)) = jail_queue s \<and>
     active_reads (snd (wait_cycle W s)) = (if idle W (idle_reads s) then active_reads s else Suc (active_reads s)) \<and>
     trace (snd (wait_cycle W s)) =
       trace s @ (if idle W (idle_reads s) then [Wait, PollIdle True, Sleep]
                  else [Wait, PollIdle False, PollActive False])"
proof (cases "idle W (idle_reads s)")
  case True
  then show ?thesis by (simp add: wait_cycle_def read_idle_def)
next
  case False
  let ?s0 = "s\<lparr>jrnl := wait (reader W) (jrnl s), idle_reads := Suc (idle_reads s),
       trace := trace s @ [Wait, PollIdle False], modified := 0\<rparr>"
  have "\<not> active W (active_reads ?s0)" using assms by simp
  then have "drain W ?s0 = (Returned, polled ?s0 False)" by (rule drain_inactive)
  then show ?thesis using False by (simp add: wait_cycle_def read_idle_def polled_def)
qed

lemma main_loop_last_cycle:
  assumes a: "active W (active_reads s)" and c: "\<forall>i>active_reads s. \<not> active W i"
  shows "\<exists>s'. main_loop W (Suc (Suc n)) s = Some (Returned, s') \<and> ticks s' = ticks s \<and>
     jail_queue s' = jail_queue s \<and>
     trace s' = trace s @ (if idle W (idle_reads s)
        then [PollActive True, Wait, PollIdle True, Sleep, PollActive False]
        else [PollActive True, Wait, PollIdle False, PollActive False, PollActive False])"
proof -
  let ?s1 = "polled s True"
  have c1: "\<not> active W (active_reads ?s1)" using c by (simp add: polled_def)
  note w = wait_cycle_cleared[OF c1]
  obtain s2 where s2: "wait_cycle W ?s1 = (Returned, s2)"
    using w by (cases "wait_cycle W ?s1") simp
  have c2: "\<not> active W (active_reads s2)"
    using w s2 c by (simp add: polled_def split: if_splits)
  have "main_loop W (Suc (Suc n)) s = main_loop W (Suc n) s2"
    using a s2 by (simp add: read_active_def polled_def)
  also have "\<dots> = Some (Returned, polled s2 False)" using c2 by (rule main_loop_cleared)
  finally have m: "main_loop W (Suc (Suc n)) s = Some (Returned, polled s2 False)" .
  have f: "ticks (polled s2 False) = ticks s \<and> jail_queue (polled s2 False) = jail_queue s \<and>
     trace (polled s2 False) = trace s @ (if idle W (idle_reads s)
        then [PollActive True, Wait, PollIdle True, Sleep, PollActive False]
        else [PollActive True, Wait, PollIdle False, PollActive False, PollActive False])"
    using w s2 by (simp add: polled_def)
  from m f show ?thesis by blast
qed

lemma drain_last_pass:
  assumes c: "\<forall>i>active_reads s. \<not> active W i"
  shows "ticks (snd (drain W s)) \<le> Suc (ticks s) \<and>
         modified (snd (drain W s)) \<le> Suc (modified s) \<and>
         active_reads (snd (drain W s)) \<le> Suc (Suc (active_reads s))"
proof (cases "active W (active_reads s)")
  case False
  then show ?thesis by (simp add: drain_inactive polled_def)
next
  case a: True
  obtain r j where g: "get_next (reader W) (jrnl s) = (r, j)"
    by (cases "get_next (reader W) (jrnl s)")
  show ?thesis
  proof (cases r)
    case None
    with g have "drain W s = (Returned, fetched s j False)" using drain_fault[OF a] by simp
    then show ?thesis by (simp add: fetched_def)
  next
    case (Some e)
    note g' = g[unfolded Some]
    show ?thesis
    proof (cases "e = []")
      case True
      with g' have "drain W s = (Returned, fetched s j False)" using drain_no_entry[OF a] by simp
      then show ?thesis by (simp add: fetched_def)
    next
      case e: False
      show ?thesis
      proof (cases "formatJournalEntry (helpers W) e")
        case (Inl err)
        from drain_format_error[OF a g' e Inl] show ?thesis by (simp add: fetched_def)
      next
        case (Inr entry)
        note d = drain_entry[OF a g' e Inr]
        have "\<not> active W (active_reads (handled W s j entry))"
          using c by (simp add: handled_def)
        then have "drain W (handled W s j entry) = (Returned, polled (handled W s j entry) False)"
          by (rule drain_inactive)
        with d show ?thesis by (simp add: handled_def polled_def)
      qed
    qed
  qed
qed

lemma active_reads_ticket_loop: "active_reads (ticket_loop ts s) = active_reads s"
  by (induction ts arbitrary: s) simp_all

lemma wait_cycle_active_reads: "active_reads s \<le> active_reads (snd (wait_cycle W s))"
proof -
  let ?s0 = "s\<lparr>jrnl := wait (reader W) (jrnl s), idle_reads := Suc (idle_reads s),
       trace := trace s @ [Wait, PollIdle (idle W (idle_reads s))], modified := 0\<rparr>"
  have "drain_post W ?s0 (snd (drain W ?s0))" by (rule drain_post_drain)
  then have d: "active_reads s \<le> active_reads (snd (drain W ?s0))" by (simp add: drain_post_def)
  show ?thesis
  proof (cases "idle W (idle_reads s)")
    case True
    then show ?thesis by (simp add: wait_cycle_def read_idle_def)
  next
    case False
    obtain out s3 where p: "drain W ?s0 = (out, s3)" by (cases "drain W ?s0")
    with d have "active_reads s \<le> active_reads s3" by simp
    then show ?thesis using False p
      by (cases out) (simp_all add: wait_cycle_def read_idle_def ticket_drain_def active_reads_ticket_loop)
  qed
qed

lemma main_loop_terminates:
  "\<forall>i\<ge>k. \<not> active W i \<Longrightarrow> k - active_reads s < n \<Longrightarrow> \<exists>r. main_loop W n s = Some r"
proof (induction n arbitrary: s)
  case 0
  then show ?case by simp
next
  case (Suc n)
  show ?case
  proof (cases "active W (active_reads s)")
    case False
    then show ?thesis by (simp add: read_active_def)
  next
    case True
    then have lt: "active_reads s < k" using Suc.prems(1) by (meson not_le)
    let ?s1 = "polled s True"
    obtain out s2 where w: "wait_cycle W ?s1 = (out, s2)" by (cases "wait_cycle W ?s1")
    have "active_reads ?s1 \<le> active_reads s2" using wait_cycle_active_reads[of ?s1 W] w by simp
    then have "k - active_reads s2 < n" using Suc.prems(2) lt by (simp add: polled_def)
    from Suc.IH[OF Suc.prems(1) this] obtain r where r: "main_loop W n s2 = Some r" by blast
    have m: "main_loop W (Suc n) s =
        (case wait_cycle W ?s1 of (Raised err, s2) \<Rightarrow> Some (Raised err, s2)
           | (Returned, s2) \<Rightarrow> main_loop W n s2)"
      using True by (simp add: read_active_def polled_def)
    show ?thesis unfolding m w using r by (cases out) simp_all
  qed
qed

lemma startup_kernel_store:
  "startup store_world (new_run_state kernel_store) =
     (Returned,
      \<lparr>jrnl = kernel_store, ticks = 0, modified = 0, pending = [], jail_queue = [],
       active_reads = 0, idle_reads = 0, trace = [Seek 400000000, StepBack]\<rparr>)"
  by (simp add: startup_def seekToTime_def store_world_def new_run_state_def store_ops_def
      store_seek_realtime_def store_get_previous_def kernel_store_def Let_def
      timedelta_seconds_ok_def datetime_min_def datetime_max_def)

lemma drain_kernel_store:
  "drain store_world
     \<lparr>jrnl = kernel_store, ticks = 0, modified = 0, pending = [], jail_queue = [],
      active_reads = Suc 0, idle_reads = Suc 0,
      trace = [Seek 400000000, StepBack, PollActive True, Wait, PollIdle False]\<rparr> =
   (Returned,
     \<lparr>jrnl = kernel_store\<lparr>cursor := OnEntry 0\<rparr>, ticks = Suc 0, modified = Suc 0,
      pending = [''192.0.2.1'', ''192.0.2.2'', ''192.0.2.3''], jail_queue = [],
      active_reads = Suc (Suc (Suc 0)), idle_reads = Suc 0,
      trace = [Seek 400000000, StepBack, PollActive True, Wait, PollIdle False,
               PollActive True, Next True,
               Processed ''host1 kernel: [    1.234567] usb 1-1: new device'',
               PollActive False]\<rparr>)"
proof -
  let ?s = "\<lparr>jrnl = kernel_store, ticks = 0, modified = 0, pending = [], jail_queue = [],
      active_reads = Suc 0, idle_reads = Suc 0,
      trace = [Seek 400000000, StepBack, PollActive True, Wait, PollIdle False]\<rparr>"
  let ?entry = "(([], ''2013-11-2'', ''host1 kernel: [    1.234567] usb 1-1: new device''), 1383350525.25::real)"
  have a: "active store_world (active_reads ?s)" by (simp add: store_world_def)
  have g: "get_next (reader store_world) (jrnl ?s) = (Some kernel_entry, kernel_store\<lparr>cursor := OnEntry 0\<rparr>)"
    by (simp add: store_world_def store_ops_def store_get_next_def kernel_store_def)
  have e: "kernel_entry \<noteq> []" by (simp add: kernel_entry_def)
  have f: "formatJournalEntry (helpers store_world) kernel_entry = Inr ?entry"
    using kernel_entry_formats by (simp add: store_world_def)
  have d: "drain store_world ?s = drain store_world (handled store_world ?s (kernel_store\<lparr>cursor := OnEntry 0\<rparr>) ?entry)"
    using drain_entry[OF a g e f] by simp
  have "\<not> active store_world (active_reads (handled store_world ?s (kernel_store\<lparr>cursor := OnEntry 0\<rparr>) ?entry))"
    by (simp add: handled_def store_world_def)
  from drain_inactive[OF this] show ?thesis
    unfolding d by (simp add: handled_def polled_def store_world_def)
qed

subsection \<open>The cursor after the startup seek\<close>

lemma find_takeWhile:
  "find P xs =
     (if length (takeWhile (\<lambda>x. \<not> P x) xs) < length xs
      then Some (xs ! length (takeWhile (\<lambda>x. \<not> P x) xs)) else None)"
  by (induction xs) simp_all

lemma sorted_after_takeWhile:
  assumes "sorted (map fst es)" and "i = length (takeWhile (\<lambda>(ts, e). ts < t) es)"
    and "i < length es" and "(ts', e') \<in> set es" and "t \<le> ts'"
  shows "fst (es ! i) \<le> ts'"
proof -
  obtain k where k: "k < length es" "es ! k = (ts', e')"
    using assms(4) by (auto simp: in_set_conv_nth)
  have "i \<le> k"
  proof (rule ccontr)
    assume "\<not> i \<le> k"
    then have "k < length (takeWhile (\<lambda>(ts, e). ts < t) es)" using assms(2) by simp
    then have lt: "k < length (takeWhile (\<lambda>(ts, e). ts < t) es)" .
    have "takeWhile (\<lambda>(ts, e). ts < t) es ! k \<in> set (takeWhile (\<lambda>(ts, e). ts < t) es)"
      using lt by (rule nth_mem)
    moreover have "takeWhile (\<lambda>(ts, e). ts < t) es ! k = es ! k"
      using lt by (rule takeWhile_nth)
    ultimately have "(ts', e') \<in> set (takeWhile (\<lambda>(ts, e). ts < t) es)" using k(2) by simp
    then have "ts' < t" using set_takeWhileD[of "(ts', e')" "\<lambda>(ts, e). ts < t" es] by simp
    with assms(5) show False by simp
  qed
  then have "map fst es ! i \<le> map fst es ! k"
    using assms(1) k(1) by (simp add: sorted_iff_nth_mono)
  then show ?thesis using k assms(3) by simp
qed

lemma not_at_or_after: "(\<lambda>x. \<not> (case x of (ts, e) \<Rightarrow> t \<le> ts)) = (\<lambda>(ts, e). ts < (t::int))"
  by (auto simp: fun_eq_iff)

lemma first_at_or_after:
  "(case find (\<lambda>(ts, e). t \<le> ts) es of None \<Rightarrow> [] | Some (ts, e) \<Rightarrow> e) =
     (if length (takeWhile (\<lambda>(ts, e). ts < (t::int)) es) < length es
      then snd (es ! length (takeWhile (\<lambda>(ts, e). ts < t) es)) else [])"
  by (simp add: find_takeWhile[of "\<lambda>(ts, e). t \<le> ts" es] not_at_or_after split: prod.splits)

lemma store_next_after_seek:
  "fst (store_get_next (j\<lparr>cursor := SeekPoint i\<rparr>)) =
     Some (if i < length (entries j) then snd (entries j ! i) else [])"
  by (simp add: store_get_next_def)

lemma store_next_after_step:
  "fst (store_get_next (snd (store_get_previous (j\<lparr>cursor := SeekPoint i\<rparr>)))) =
     Some (if i < length (entries j) then snd (entries j ! i) else [])"
  by (cases i) (simp_all add: store_get_next_def store_get_previous_def)

lemma store_cursor_after_step:
  "cursor (snd (store_get_previous (j\<lparr>cursor := SeekPoint i\<rparr>))) =
     (if broken j \<or> i = 0 then SeekPoint i else OnEntry (i - 1))"
  "entries (snd (store_get_previous (j\<lparr>cursor := SeekPoint i\<rparr>))) = entries j"
  by (cases i; simp add: store_get_previous_def)+

lemma store_step_returns:
  "(\<exists>m. fst (store_get_previous j) = Inl (OSError m)) \<or> (\<exists>e. fst (store_get_previous j) = Inr e)"
  by (simp add: store_get_previous_def split: position.splits nat.splits)

lemma startup_out_of_range:
  "\<not> start_time_ok W \<Longrightarrow> \<exists>m. startup W s = (Raised (OverflowError m), s)"
  by (auto simp: startup_def start_time_ok_def Let_def)

lemma startup_step:
  assumes "start_time_ok W"
  shows "jrnl (snd (startup W s)) = snd (get_previous (reader W) (seek_realtime (reader W) (now W - findtime W * 1000000) (jrnl s)))"
    and "trace (snd (startup W s)) = trace s @ [Seek (now W - findtime W * 1000000), StepBack]"
    and "(\<exists>m. fst (get_previous (reader W) (seek_realtime (reader W) (now W - findtime W * 1000000) (jrnl s))) = Inl (OSError m)) \<or> (\<exists>e. fst (get_previous (reader W) (seek_realtime (reader W) (now W - findtime W * 1000000) (jrnl s))) = Inr e) \<Longrightarrow>
         fst (startup W s) = Returned"
  using assms
  by (auto simp: startup_def seekToTime_def start_time_ok_def Let_def
      split: prod.splits sum.splits error.splits)

lemma startup_store:
  assumes ok: "start_time_ok W" and r: "reader W = store_ops"
  shows "jrnl (snd (startup W s)) =
     snd (store_get_previous ((jrnl s)\<lparr>cursor := SeekPoint (length (takeWhile (\<lambda>(ts, e). ts < now W - findtime W * 1000000) (entries (jrnl s))))\<rparr>))"
    and "fst (startup W s) = Returned"
proof -
  have p: "get_previous (reader W) (seek_realtime (reader W) (now W - findtime W * 1000000) (jrnl s)) =
      store_get_previous ((jrnl s)\<lparr>cursor := SeekPoint (length (takeWhile (\<lambda>(ts, e). ts < now W - findtime W * 1000000) (entries (jrnl s))))\<rparr>)"
    by (simp add: r store_ops_def store_seek_realtime_def)
  show "jrnl (snd (startup W s)) =
     snd (store_get_previous ((jrnl s)\<lparr>cursor := SeekPoint (length (takeWhile (\<lambda>(ts, e). ts < now W - findtime W * 1000000) (entries (jrnl s))))\<rparr>))"
    by (simp only: startup_step(1)[OF ok] p)
  show "fst (startup W s) = Returned"
    by (rule startup_step(3)[OF ok]) (simp only: p store_step_returns)
qed

lemma run_after_startup:
  "fst (startup W s) = Returned \<Longrightarrow> run W n s = main_loop W n (snd (startup W s))"
  by (cases "startup W s") (simp add: run_def)

subsection \<open>A whole wait cycle\<close>

lemma entered_fields:
  "modified (entered W s) = 0"
  "ticks (entered W s) = ticks s"
  "active_reads (entered W s) = active_reads s"
  "jrnl (entered W s) = wait (reader W) (jrnl s)"
  "processed_events (trace (entered W s)) = processed_events (trace s)"
  "trace (entered W s) = trace s @ [Wait, PollIdle False]"
  by (simp_all add: entered_def processed_events_def)

lemma wait_cycle_idle:
  assumes "idle W (idle_reads s)"
  shows "fst (wait_cycle W s) = Returned \<and> ticks (snd (wait_cycle W s)) = ticks s \<and>
     modified (snd (wait_cycle W s)) = modified s \<and>
     active_reads (snd (wait_cycle W s)) = active_reads s \<and>
     jrnl (snd (wait_cycle W s)) = wait (reader W) (jrnl s) \<and>
     trace (snd (wait_cycle W s)) = trace s @ [Wait, PollIdle True, Sleep]"
  using assms by (simp add: wait_cycle_def read_idle_def)

lemma wait_cycle_not_idle:
  "\<not> idle W (idle_reads s) \<Longrightarrow>
   wait_cycle W s =
     (case drain W (entered W s) of
        (Raised err, s3) \<Rightarrow> (Raised err, s3)
      | (Returned, s3) \<Rightarrow> (Returned, if modified s3 \<noteq> 0 then ticket_drain s3 else s3))"
  by (simp add: wait_cycle_def read_idle_def entered_def)

lemma ticket_drain_fields:
  "modified (ticket_drain s) = modified s"
  "ticks (ticket_drain s) = ticks s"
  "jrnl (ticket_drain s) = jrnl s"
  "active_reads (ticket_drain s) = active_reads s"
  "processed_events (trace (ticket_drain s)) = processed_events (trace s)"
  "\<exists>evs. trace (ticket_drain s) = trace s @ evs"
  by (simp_all add: ticket_drain_def processed_ticket_loop) (simp_all add: ticket_loop_result)

lemma wait_cycle_returned:
  assumes i: "\<not> idle W (idle_reads s)" and d: "fst (drain W (entered W s)) = Returned"
  shows "fst (wait_cycle W s) = Returned"
    and "modified (snd (wait_cycle W s)) = modified (snd (drain W (entered W s)))"
    and "ticks (snd (wait_cycle W s)) = ticks (snd (drain W (entered W s)))"
    and "jrnl (snd (wait_cycle W s)) = jrnl (snd (drain W (entered W s)))"
    and "active_reads (snd (wait_cycle W s)) = active_reads (snd (drain W (entered W s)))"
    and "processed_events (trace (snd (wait_cycle W s))) =
         processed_events (trace (snd (drain W (entered W s))))"
proof -
  obtain s3 where p: "drain W (entered W s) = (Returned, s3)"
    using d by (cases "drain W (entered W s)") simp
  show "fst (wait_cycle W s) = Returned"
    and "modified (snd (wait_cycle W s)) = modified (snd (drain W (entered W s)))"
    and "ticks (snd (wait_cycle W s)) = ticks (snd (drain W (entered W s)))"
    and "jrnl (snd (wait_cycle W s)) = jrnl (snd (drain W (entered W s)))"
    and "active_reads (snd (wait_cycle W s)) = active_reads (snd (drain W (entered W s)))"
    and "processed_events (trace (snd (wait_cycle W s))) =
         processed_events (trace (snd (drain W (entered W s))))"
    by (simp_all add: wait_cycle_not_idle[OF i] p ticket_drain_fields)
qed

lemma wait_cycle_counts:
  assumes i: "\<not> idle W (idle_reads s)"
  shows "modified (snd (wait_cycle W s)) \<le> 100"
    and "processed_events (trace (snd (wait_cycle W s))) =
         processed_events (trace s) + modified (snd (wait_cycle W s))"
    and "\<exists>evs. trace (snd (wait_cycle W s)) =
           trace s @ [Wait, PollIdle False, PollActive (active W (active_reads s))] @ evs"
proof -
  obtain out s3 where p: "drain W (entered W s) = (out, s3)" by (cases "drain W (entered W s)")
  have "drain_post W (entered W s) (snd (drain W (entered W s)))" by (rule drain_post_drain)
  then have post: "drain_post W (entered W s) s3" by (simp add: p)
  have m: "modified s3 \<le> 100" using post by (simp add: drain_post_def entered_fields(1))
  have e: "processed_events (trace s3) = processed_events (trace s) + modified s3"
    using post by (simp add: drain_post_def entered_fields(1,5))
  obtain evs where t: "trace s3 =
      trace s @ [Wait, PollIdle False, PollActive (active W (active_reads s))] @ evs"
    using post by (auto simp: drain_post_def entered_fields(3,6))
  obtain evs' where t': "trace (ticket_drain s3) = trace s3 @ evs'"
    using ticket_drain_fields(6) by blast
  have tt: "trace (ticket_drain s3) =
      trace s @ [Wait, PollIdle False, PollActive (active W (active_reads s))] @ (evs @ evs')"
    by (simp add: t' t)
  have w: "snd (wait_cycle W s) = s3 \<or> snd (wait_cycle W s) = ticket_drain s3"
    by (cases out) (simp_all add: wait_cycle_not_idle[OF i] p)
  show "modified (snd (wait_cycle W s)) \<le> 100"
    using w m by (auto simp: ticket_drain_fields)
  show "processed_events (trace (snd (wait_cycle W s))) =
         processed_events (trace s) + modified (snd (wait_cycle W s))"
    using w e by (auto simp: ticket_drain_fields)
  show "\<exists>evs. trace (snd (wait_cycle W s)) =
           trace s @ [Wait, PollIdle False, PollActive (active W (active_reads s))] @ evs"
  proof (rule disjE[OF w])
    assume "snd (wait_cycle W s) = s3"
    then have "trace (snd (wait_cycle W s)) =
        trace s @ [Wait, PollIdle False, PollActive (active W (active_reads s))] @ evs"
      by (simp only: t)
    then show ?thesis by (rule exI)
  next
    assume "snd (wait_cycle W s) = ticket_drain s3"
    then have "trace (snd (wait_cycle W s)) =
        trace s @ [Wait, PollIdle False, PollActive (active W (active_reads s))] @ (evs @ evs')"
      by (simp only: tt)
    then show ?thesis by (rule exI)
  qed
qed

lemma wait_cycle_full:
  assumes i: "\<not> idle W (idle_reads s)"
    and a: "\<forall>i<100. active W (active_reads s + i)"
    and r: "\<forall>i<100. readable W (reads_ahead W (wait (reader W) (jrnl s)) i)"
  shows "fst (wait_cycle W s) = Returned \<and> modified (snd (wait_cycle W s)) = 100 \<and>
         ticks (snd (wait_cycle W s)) = ticks s + 100 \<and>
         active_reads (snd (wait_cycle W s)) = active_reads s + 100 \<and>
         jrnl (snd (wait_cycle W s)) = reads_ahead W (wait (reader W) (jrnl s)) 100 \<and>
         processed_events (trace (snd (wait_cycle W s))) = processed_events (trace s) + 100"
proof -
  have a': "\<forall>i<100. active W (active_reads (entered W s) + i)"
    using a by (simp only: entered_fields)
  have r': "\<forall>i<100. readable W (reads_ahead W (jrnl (entered W s)) i)"
    using r by (simp only: entered_fields)
  note f = drain_full[OF entered_fields(1) a' r']
  have d: "fst (drain W (entered W s)) = Returned" using f by simp
  note w = wait_cycle_returned[OF i d]
  have "modified (snd (wait_cycle W s)) = 100" using f w(2) by simp
  then have "processed_events (trace (snd (wait_cycle W s))) = processed_events (trace s) + 100"
    using wait_cycle_counts(2)[OF i] by simp
  then show ?thesis using f w by (simp add: entered_fields)
qed

lemma wait_cycle_until_exhausted:
  assumes i: "\<not> idle W (idle_reads s)" and k: "k < 100"
    and a: "\<forall>i\<le>k. active W (active_reads s + i)"
    and r: "\<forall>i<k. readable W (reads_ahead W (wait (reader W) (jrnl s)) i)"
    and x: "exhausted W (reads_ahead W (wait (reader W) (jrnl s)) k)"
  shows "fst (wait_cycle W s) = Returned \<and> modified (snd (wait_cycle W s)) = k \<and>
         ticks (snd (wait_cycle W s)) = ticks s + k + 1 \<and>
         processed_events (trace (snd (wait_cycle W s))) = processed_events (trace s) + k"
proof -
  have a': "\<forall>i\<le>k. active W (active_reads (entered W s) + i)"
    using a by (simp only: entered_fields)
  have r': "\<forall>i<k. readable W (reads_ahead W (jrnl (entered W s)) i)"
    using r by (simp only: entered_fields)
  have x': "exhausted W (reads_ahead W (jrnl (entered W s)) k)"
    using x by (simp only: entered_fields)
  note f = drain_until_exhausted[OF entered_fields(1) k a' r' x']
  have d: "fst (drain W (entered W s)) = Returned" using f by simp
  note w = wait_cycle_returned[OF i d]
  have "modified (snd (wait_cycle W s)) = k" using f w(2) by simp
  then have "processed_events (trace (snd (wait_cycle W s))) = processed_events (trace s) + k"
    using wait_cycle_counts(2)[OF i] by simp
  then show ?thesis using f w by (simp add: entered_fields)
qed

lemma wait_cycle_until_cleared:
  assumes i: "\<not> idle W (idle_reads s)" and k: "k < 100"
    and a: "\<forall>i<k. active W (active_reads s + i)"
    and c: "\<not> active W (active_reads s + k)"
    and r: "\<forall>i<k. readable W (reads_ahead W (wait (reader W) (jrnl s)) i)"
  shows "fst (wait_cycle W s) = Returned \<and> modified (snd (wait_cycle W s)) = k \<and>
         ticks (snd (wait_cycle W s)) = ticks s + k \<and>
         processed_events (trace (snd (wait_cycle W s))) = processed_events (trace s) + k"
proof -
  have a': "\<forall>i<k. active W (active_reads (entered W s) + i)"
    using a by (simp only: entered_fields)
  have c': "\<not> active W (active_reads (entered W s) + k)"
    using c by (simp add: entered_fields(3))
  have r': "\<forall>i<k. readable W (reads_ahead W (jrnl (entered W s)) i)"
    using r by (simp only: entered_fields)
  note f = drain_until_cleared[OF entered_fields(1) k a' c' r']
  have d: "fst (drain W (entered W s)) = Returned" using f by simp
  note w = wait_cycle_returned[OF i d]
  have "modified (snd (wait_cycle W s)) = k" using f w(2) by simp
  then have "processed_events (trace (snd (wait_cycle W s))) = processed_events (trace s) + k"
    using wait_cycle_counts(2)[OF i] by simp
  then show ?thesis using f w by (simp add: entered_fields)
qed

subsection \<open>The claims on the main loop\<close>

text \<open>
  Claim C4. A wait cycle hands at most 100 entries to \<open>processLineAndAdd\<close>, whatever the
  journal holds and whatever the counter was before. An idle cycle waits, sleeps and
  reads nothing. A cycle that is not idle enters the inner loop with the counter reset,
  and the loop starts by reading the active flag; the counter ends at most at 100 and
  counts the entries the cycle processed. When the flag stays set and the next 100 reads
  after the wait return entries, the cycle ends with the counter at exactly 100 after
  exactly 100 reads: the reader is where 100 reads leave it, so that a further entry
  stays unread. When the read number \<open>k + 1\<close> (\<open>k < 100\<close>) is the first to return no entry
  or to fail, the cycle ends there with \<open>k\<close> entries processed; and when the flag is found
  cleared at the top of pass \<open>k + 1\<close>, the cycle ends there without a further read. The
  outer loop reads the flag before every wait cycle and returns when it is cleared.
\<close>

theorem wait_cycle_batch_cap:
  "processed_events (trace (snd (wait_cycle W s))) \<le> processed_events (trace s) + 100 \<and>
   (idle W (idle_reads s) \<longrightarrow>
      fst (wait_cycle W s) = Returned \<and> ticks (snd (wait_cycle W s)) = ticks s \<and>
      modified (snd (wait_cycle W s)) = modified s \<and>
      active_reads (snd (wait_cycle W s)) = active_reads s \<and>
      jrnl (snd (wait_cycle W s)) = wait (reader W) (jrnl s) \<and>
      trace (snd (wait_cycle W s)) = trace s @ [Wait, PollIdle True, Sleep]) \<and>
   (\<not> idle W (idle_reads s) \<longrightarrow>
      modified (snd (wait_cycle W s)) \<le> 100 \<and>
      processed_events (trace (snd (wait_cycle W s))) =
        processed_events (trace s) + modified (snd (wait_cycle W s)) \<and>
      (\<exists>evs. trace (snd (wait_cycle W s)) =
          trace s @ [Wait, PollIdle False, PollActive (active W (active_reads s))] @ evs) \<and>
      ((\<forall>i<100. active W (active_reads s + i)) \<and>
       (\<forall>i<100. readable W (reads_ahead W (wait (reader W) (jrnl s)) i)) \<longrightarrow>
         fst (wait_cycle W s) = Returned \<and> modified (snd (wait_cycle W s)) = 100 \<and>
         ticks (snd (wait_cycle W s)) = ticks s + 100 \<and>
         active_reads (snd (wait_cycle W s)) = active_reads s + 100 \<and>
         jrnl (snd (wait_cycle W s)) = reads_ahead W (wait (reader W) (jrnl s)) 100 \<and>
         processed_events (trace (snd (wait_cycle W s))) = processed_events (trace s) + 100) \<and>
      (\<forall>k<100. (\<forall>i\<le>k. active W (active_reads s + i)) \<and>
         (\<forall>i<k. readable W (reads_ahead W (wait (reader W) (jrnl s)) i)) \<and>
         exhausted W (reads_ahead W (wait (reader W) (jrnl s)) k) \<longrightarrow>
         fst (wait_cycle W s) = Returned \<and> modified (snd (wait_cycle W s)) = k \<and>
         ticks (snd (wait_cycle W s)) = ticks s + k + 1 \<and>
         processed_events (trace (snd (wait_cycle W s))) = processed_events (trace s) + k) \<and>
      (\<forall>k<100. (\<forall>i<k. active W (active_reads s + i)) \<and>
         \<not> active W (active_reads s + k) \<and>
         (\<forall>i<k. readable W (reads_ahead W (wait (reader W) (jrnl s)) i)) \<longrightarrow>
         fst (wait_cycle W s) = Returned \<and> modified (snd (wait_cycle W s)) = k \<and>
         ticks (snd (wait_cycle W s)) = ticks s + k \<and>
         processed_events (trace (snd (wait_cycle W s))) = processed_events (trace s) + k)) \<and>
   (\<not> active W (active_reads s) \<longrightarrow>
      main_loop W (Suc n) s =
        Some (Returned, s\<lparr>active_reads := Suc (active_reads s),
                           trace := trace s @ [PollActive False]\<rparr>))"
proof -
  have 0: "processed_events (trace (snd (wait_cycle W s))) \<le> processed_events (trace s) + 100"
    by (rule wait_cycle_processed)
  have 1: "fst (wait_cycle W s) = Returned \<and> ticks (snd (wait_cycle W s)) = ticks s \<and>
      modified (snd (wait_cycle W s)) = modified s \<and>
      active_reads (snd (wait_cycle W s)) = active_reads s \<and>
      jrnl (snd (wait_cycle W s)) = wait (reader W) (jrnl s) \<and>
      trace (snd (wait_cycle W s)) = trace s @ [Wait, PollIdle True, Sleep]" if "idle W (idle_reads s)"
    using that by (rule wait_cycle_idle)
  have 2: "modified (snd (wait_cycle W s)) \<le> 100" if "\<not> idle W (idle_reads s)"
    using that by (rule wait_cycle_counts(1))
  have 3: "processed_events (trace (snd (wait_cycle W s))) =
        processed_events (trace s) + modified (snd (wait_cycle W s))" if "\<not> idle W (idle_reads s)"
    using that by (rule wait_cycle_counts(2))
  have 4: "\<exists>evs. trace (snd (wait_cycle W s)) =
          trace s @ [Wait, PollIdle False, PollActive (active W (active_reads s))] @ evs" if "\<not> idle W (idle_reads s)"
    using that by (rule wait_cycle_counts(3))
  have 5: "fst (wait_cycle W s) = Returned \<and> modified (snd (wait_cycle W s)) = 100 \<and>
         ticks (snd (wait_cycle W s)) = ticks s + 100 \<and>
         active_reads (snd (wait_cycle W s)) = active_reads s + 100 \<and>
         jrnl (snd (wait_cycle W s)) = reads_ahead W (wait (reader W) (jrnl s)) 100 \<and>
         processed_events (trace (snd (wait_cycle W s))) = processed_events (trace s) + 100"
    if "\<not> idle W (idle_reads s)" and "(\<forall>i<100. active W (active_reads s + i)) \<and>
       (\<forall>i<100. readable W (reads_ahead W (wait (reader W) (jrnl s)) i))"
    using wait_cycle_full[OF that(1) conjunct1[OF that(2)] conjunct2[OF that(2)]] .
  have 6: "\<forall>k<100. (\<forall>i\<le>k. active W (active_reads s + i)) \<and>
         (\<forall>i<k. readable W (reads_ahead W (wait (reader W) (jrnl s)) i)) \<and>
         exhausted W (reads_ahead W (wait (reader W) (jrnl s)) k) \<longrightarrow>
         fst (wait_cycle W s) = Returned \<and> modified (snd (wait_cycle W s)) = k \<and>
         ticks (snd (wait_cycle W s)) = ticks s + k + 1 \<and>
         processed_events (trace (snd (wait_cycle W s))) = processed_events (trace s) + k" if "\<not> idle W (idle_reads s)"
    using wait_cycle_until_exhausted[OF that] by blast
  have 7: "\<forall>k<100. (\<forall>i<k. active W (active_reads s + i)) \<and>
         \<not> active W (active_reads s + k) \<and>
         (\<forall>i<k. readable W (reads_ahead W (wait (reader W) (jrnl s)) i)) \<longrightarrow>
         fst (wait_cycle W s) = Returned \<and> modified (snd (wait_cycle W s)) = k \<and>
         ticks (snd (wait_cycle W s)) = ticks s + k \<and>
         processed_events (trace (snd (wait_cycle W s))) = processed_events (trace s) + k" if "\<not> idle W (idle_reads s)"
    using wait_cycle_until_cleared[OF that] by blast
  have 8: "main_loop W (Suc n) s =
        Some (Returned, s\<lparr>active_reads := Suc (active_reads s),
                           trace := trace s @ [PollActive False]\<rparr>)" if "\<not> active W (active_reads s)"
    using main_loop_cleared[OF that] by (simp add: polled_def)
  show ?thesis
  proof (intro conjI impI)
    show "processed_events (trace (snd (wait_cycle W s))) \<le> processed_events (trace s) + 100" by (rule 0)
  next
    assume i: "idle W (idle_reads s)"
    note r = 1[OF i]
    show "fst (wait_cycle W s) = Returned" using r by simp
    show "ticks (snd (wait_cycle W s)) = ticks s" using r by simp
    show "modified (snd (wait_cycle W s)) = modified s" using r by simp
    show "active_reads (snd (wait_cycle W s)) = active_reads s" using r by simp
    show "jrnl (snd (wait_cycle W s)) = wait (reader W) (jrnl s)" using r by simp
    show "trace (snd (wait_cycle W s)) = trace s @ [Wait, PollIdle True, Sleep]" using r by simp
  next
    assume i: "\<not> idle W (idle_reads s)"
    show "modified (snd (wait_cycle W s)) \<le> 100" by (rule 2[OF i])
    show "processed_events (trace (snd (wait_cycle W s))) =
        processed_events (trace s) + modified (snd (wait_cycle W s))" by (rule 3[OF i])
    show "\<exists>evs. trace (snd (wait_cycle W s)) =
          trace s @ [Wait, PollIdle False, PollActive (active W (active_reads s))] @ evs" by (rule 4[OF i])
    show "\<forall>k<100. (\<forall>i\<le>k. active W (active_reads s + i)) \<and>
         (\<forall>i<k. readable W (reads_ahead W (wait (reader W) (jrnl s)) i)) \<and>
         exhausted W (reads_ahead W (wait (reader W) (jrnl s)) k) \<longrightarrow>
         fst (wait_cycle W s) = Returned \<and> modified (snd (wait_cycle W s)) = k \<and>
         ticks (snd (wait_cycle W s)) = ticks s + k + 1 \<and>
         processed_events (trace (snd (wait_cycle W s))) = processed_events (trace s) + k" by (rule 6[OF i])
    show "\<forall>k<100. (\<forall>i<k. active W (active_reads s + i)) \<and>
         \<not> active W (active_reads s + k) \<and>
         (\<forall>i<k. readable W (reads_ahead W (wait (reader W) (jrnl s)) i)) \<longrightarrow>
         fst (wait_cycle W s) = Returned \<and> modified (snd (wait_cycle W s)) = k \<and>
         ticks (snd (wait_cycle W s)) = ticks s + k \<and>
         processed_events (trace (snd (wait_cycle W s))) = processed_events (trace s) + k" by (rule 7[OF i])
  next
    assume i: "\<not> idle W (idle_reads s)"
      and h: "(\<forall>i<100. active W (active_reads s + i)) \<and>
       (\<forall>i<100. readable W (reads_ahead W (wait (reader W) (jrnl s)) i))"
    note r = 5[OF i h]
    show "fst (wait_cycle W s) = Returned" using r by simp
    show "modified (snd (wait_cycle W s)) = 100" using r by simp
    show "ticks (snd (wait_cycle W s)) = ticks s + 100" using r by simp
    show "active_reads (snd (wait_cycle W s)) = active_reads s + 100" using r by simp
    show "jrnl (snd (wait_cycle W s)) = reads_ahead W (wait (reader W) (jrnl s)) 100" using r by simp
    show "processed_events (trace (snd (wait_cycle W s))) = processed_events (trace s) + 100" using r by simp
  next
    assume "\<not> active W (active_reads s)"
    then show "main_loop W (Suc n) s =
        Some (Returned, s\<lparr>active_reads := Suc (active_reads s),
                           trace := trace s @ [PollActive False]\<rparr>)" by (rule 8)
  qed
qed

text \<open>
  A wait cycle that starts with the counter at 100, as the cycle before left it, in a
  journal that has an entry at every read: it processes 100 entries again.
\<close>

theorem wait_cycle_batch_cap_witness:
  "\<not> idle endless_world (idle_reads ((new_run_state (0::nat))\<lparr>modified := 100\<rparr>)) \<and>
   modified ((new_run_state (0::nat))\<lparr>modified := 100\<rparr>) = 100 \<and>
   fst (wait_cycle endless_world ((new_run_state 0)\<lparr>modified := 100\<rparr>)) = Returned \<and>
   modified (snd (wait_cycle endless_world ((new_run_state 0)\<lparr>modified := 100\<rparr>))) = 100 \<and>
   ticks (snd (wait_cycle endless_world ((new_run_state 0)\<lparr>modified := 100\<rparr>))) = 100 \<and>
   jrnl (snd (wait_cycle endless_world ((new_run_state 0)\<lparr>modified := 100\<rparr>))) = 100 \<and>
   processed_events (trace (snd (wait_cycle endless_world ((new_run_state 0)\<lparr>modified := 100\<rparr>)))) = 100"
proof -
  let ?s = "(new_run_state (0::nat))\<lparr>modified := 100\<rparr>"
  have i: "\<not> idle endless_world (idle_reads ?s)" by (simp add: endless_world_def)
  have m: "modified ?s = 100" by simp
  have a: "\<forall>i<100. active endless_world (active_reads ?s + i)"
    by (simp add: endless_world_def)
  have r: "\<forall>i<100. readable endless_world
      (reads_ahead endless_world (wait (reader endless_world) (jrnl ?s)) i)"
    by (simp add: endless_readable)
  from wait_cycle_batch_cap[of endless_world ?s 0] i a r
  have "fst (wait_cycle endless_world ?s) = Returned \<and>
      modified (snd (wait_cycle endless_world ?s)) = 100 \<and>
      ticks (snd (wait_cycle endless_world ?s)) = ticks ?s + 100 \<and>
      active_reads (snd (wait_cycle endless_world ?s)) = active_reads ?s + 100 \<and>
      jrnl (snd (wait_cycle endless_world ?s)) =
        reads_ahead endless_world (wait (reader endless_world) (jrnl ?s)) 100 \<and>
      processed_events (trace (snd (wait_cycle endless_world ?s))) =
        processed_events (trace ?s) + 100"
    by blast
  then have "fst (wait_cycle endless_world ?s) = Returned \<and>
      modified (snd (wait_cycle endless_world ?s)) = 100 \<and>
      ticks (snd (wait_cycle endless_world ?s)) = 100 \<and>
      jrnl (snd (wait_cycle endless_world ?s)) = 100 \<and>
      processed_events (trace (snd (wait_cycle endless_world ?s))) = 100"
    by (simp add: endless_reads_ahead)
       (simp add: new_run_state_def endless_world_def processed_events_def)
  then show ?thesis using i m by blast
qed

text \<open>
  Claim C5, as the code has it. The counterexample is a run in which the flag reads
  cleared from its third read on: the loop then takes three tickets from the failure
  manager and puts them to the jail without a read of the flag in between; the flag is
  read four times in the whole run.
\<close>

theorem ticket_loop_ignores_flag_counterexample:
  "map_option (\<lambda>(out, s). (out, active_reads s, jail_queue s, trace s))
     (run store_world 2 (new_run_state kernel_store)) =
   Some (Returned, 4, [''192.0.2.1'', ''192.0.2.2'', ''192.0.2.3''],
     [Seek 400000000, StepBack, PollActive True, Wait, PollIdle False,
      PollActive True, Next True,
      Processed ''host1 kernel: [    1.234567] usb 1-1: new device'',
      PollActive False,
      ToBan ''192.0.2.1'', PutFailTicket ''192.0.2.1'',
      ToBan ''192.0.2.2'', PutFailTicket ''192.0.2.2'',
      ToBan ''192.0.2.3'', PutFailTicket ''192.0.2.3'',
      ToBanEmpty, Cleanup, PollActive False]) \<and>
   active store_world 2 = False \<and> active store_world 3 = False"
proof -
  have w: "wait_cycle store_world
     \<lparr>jrnl = kernel_store, ticks = 0, modified = 0, pending = [], jail_queue = [],
      active_reads = Suc 0, idle_reads = 0,
      trace = [Seek 400000000, StepBack, PollActive True]\<rparr> =
    (Returned,
     \<lparr>jrnl = kernel_store\<lparr>cursor := OnEntry 0\<rparr>, ticks = Suc 0, modified = Suc 0,
      pending = [], jail_queue = [''192.0.2.1'', ''192.0.2.2'', ''192.0.2.3''],
      active_reads = Suc (Suc (Suc 0)), idle_reads = Suc 0,
      trace = [Seek 400000000, StepBack, PollActive True, Wait, PollIdle False,
               PollActive True, Next True,
               Processed ''host1 kernel: [    1.234567] usb 1-1: new device'',
               PollActive False,
               ToBan ''192.0.2.1'', PutFailTicket ''192.0.2.1'',
               ToBan ''192.0.2.2'', PutFailTicket ''192.0.2.2'',
               ToBan ''192.0.2.3'', PutFailTicket ''192.0.2.3'',
               ToBanEmpty, Cleanup]\<rparr>)"
    unfolding wait_cycle_def read_idle_def Let_def
    by (simp add: store_world_def[THEN arg_cong, of idle] store_world_def[THEN arg_cong, of reader]
        store_ops_def drain_kernel_store ticket_drain_def)
  have a0: "active store_world 0" and a3: "\<not> active store_world (Suc (Suc (Suc 0)))"
    by (simp_all add: store_world_def)
  have "run store_world (Suc (Suc 0)) (new_run_state kernel_store) =
     Some (Returned,
     \<lparr>jrnl = kernel_store\<lparr>cursor := OnEntry 0\<rparr>, ticks = Suc 0, modified = Suc 0,
      pending = [], jail_queue = [''192.0.2.1'', ''192.0.2.2'', ''192.0.2.3''],
      active_reads = Suc (Suc (Suc (Suc 0))), idle_reads = Suc 0,
      trace = [Seek 400000000, StepBack, PollActive True, Wait, PollIdle False,
               PollActive True, Next True,
               Processed ''host1 kernel: [    1.234567] usb 1-1: new device'',
               PollActive False,
               ToBan ''192.0.2.1'', PutFailTicket ''192.0.2.1'',
               ToBan ''192.0.2.2'', PutFailTicket ''192.0.2.2'',
               ToBan ''192.0.2.3'', PutFailTicket ''192.0.2.3'',
               ToBanEmpty, Cleanup, PollActive False]\<rparr>)"
    unfolding run_def startup_kernel_store
    by (simp add: read_active_def a0 a3 w)
  then show ?thesis by (simp add: numeral_2_eq_2 store_world_def)
qed

text \<open>
  Claim C5, amended. The active flag is read at two points, the top of the wait cycle and
  the top of every pass of the inner loop: found cleared there, the outer loop returns at
  once and the inner loop ends at once, without a wait and without a read. The ticket
  loop does not read the flag and puts every pending ticket to the jail. Once the flag
  stays cleared from some read on, the loop returns, given fuel for the reads before.
  When the flag is cleared right after a read at the top of the wait cycle, the loop ends
  after one more wait (and one sleep when idle) and no further entry; when it is cleared
  right after a read at the top of a pass of the inner loop, that loop ends after at most
  one more entry.
\<close>

theorem flag_poll_points:
  "(\<not> active W (active_reads s) \<longrightarrow>
      main_loop W (Suc n) s =
        Some (Returned, s\<lparr>active_reads := Suc (active_reads s),
                           trace := trace s @ [PollActive False]\<rparr>) \<and>
      drain W s =
        (Returned, s\<lparr>active_reads := Suc (active_reads s),
                      trace := trace s @ [PollActive False]\<rparr>)) \<and>
   active_reads (ticket_drain s) = active_reads s \<and>
   jail_queue (ticket_drain s) = jail_queue s @ pending s \<and>
   pending (ticket_drain s) = [] \<and>
   ((\<forall>i\<ge>k. \<not> active W i) \<longrightarrow> (\<exists>r. main_loop W (Suc (k - active_reads s)) s = Some r)) \<and>
   (active W (active_reads s) \<and> (\<forall>i>active_reads s. \<not> active W i) \<longrightarrow>
      (\<exists>s'. main_loop W (Suc (Suc n)) s = Some (Returned, s') \<and> ticks s' = ticks s \<and>
         jail_queue s' = jail_queue s \<and>
         trace s' = trace s @ (if idle W (idle_reads s)
            then [PollActive True, Wait, PollIdle True, Sleep, PollActive False]
            else [PollActive True, Wait, PollIdle False, PollActive False, PollActive False]))) \<and>
   ((\<forall>i>active_reads s. \<not> active W i) \<longrightarrow>
      ticks (snd (drain W s)) \<le> Suc (ticks s) \<and>
      modified (snd (drain W s)) \<le> Suc (modified s) \<and>
      active_reads (snd (drain W s)) \<le> Suc (Suc (active_reads s)))"
proof -
  have 1: "main_loop W (Suc n) s =
        Some (Returned, s\<lparr>active_reads := Suc (active_reads s),
                           trace := trace s @ [PollActive False]\<rparr>) \<and>
      drain W s =
        (Returned, s\<lparr>active_reads := Suc (active_reads s),
                      trace := trace s @ [PollActive False]\<rparr>)"
    if "\<not> active W (active_reads s)"
    using main_loop_cleared[OF that] drain_inactive[OF that] by (simp add: polled_def)
  have 2: "active_reads (ticket_drain s) = active_reads s \<and>
      jail_queue (ticket_drain s) = jail_queue s @ pending s \<and> pending (ticket_drain s) = []"
    using ticket_drain_no_poll[of s] by simp
  have 3: "\<exists>r. main_loop W (Suc (k - active_reads s)) s = Some r" if "\<forall>i\<ge>k. \<not> active W i"
    using that by (rule main_loop_terminates) simp
  have 4: "\<exists>s'. main_loop W (Suc (Suc n)) s = Some (Returned, s') \<and> ticks s' = ticks s \<and>
         jail_queue s' = jail_queue s \<and>
         trace s' = trace s @ (if idle W (idle_reads s)
            then [PollActive True, Wait, PollIdle True, Sleep, PollActive False]
            else [PollActive True, Wait, PollIdle False, PollActive False, PollActive False])"
    if "active W (active_reads s) \<and> (\<forall>i>active_reads s. \<not> active W i)"
    using main_loop_last_cycle[OF conjunct1[OF that] conjunct2[OF that]] .
  have 5: "ticks (snd (drain W s)) \<le> Suc (ticks s) \<and>
      modified (snd (drain W s)) \<le> Suc (modified s) \<and>
      active_reads (snd (drain W s)) \<le> Suc (Suc (active_reads s))"
    if "\<forall>i>active_reads s. \<not> active W i"
    using that by (rule drain_last_pass)
  from 1 2 3 4 5 show ?thesis by blast
qed

theorem flag_poll_points_witness:
  "active store_world 1 \<and> \<not> active store_world 2 \<and>
   (\<exists>s'. main_loop store_world 2 ((new_run_state kernel_store)\<lparr>active_reads := 1\<rparr>) =
            Some (Returned, s') \<and>
         ticks s' = 0 \<and> jail_queue s' = [] \<and>
         trace s' = [PollActive True, Wait, PollIdle False, PollActive False, PollActive False])"
proof -
  let ?s = "(new_run_state kernel_store)\<lparr>active_reads := 1\<rparr>"
  have a: "active store_world (active_reads ?s)" by (simp add: store_world_def)
  have c: "\<forall>i>active_reads ?s. \<not> active store_world i" by (simp add: store_world_def)
  have i: "\<not> idle store_world (idle_reads ?s)" by (simp add: store_world_def)
  from flag_poll_points[of store_world ?s 0 2] a c
  have "\<exists>s'. main_loop store_world (Suc (Suc 0)) ?s = Some (Returned, s') \<and> ticks s' = ticks ?s \<and>
         jail_queue s' = jail_queue ?s \<and>
         trace s' = trace ?s @ (if idle store_world (idle_reads ?s)
            then [PollActive True, Wait, PollIdle True, Sleep, PollActive False]
            else [PollActive True, Wait, PollIdle False, PollActive False, PollActive False])"
    by blast
  then have "\<exists>s'. main_loop store_world 2 ?s = Some (Returned, s') \<and> ticks s' = 0 \<and>
         jail_queue s' = [] \<and>
         trace s' = [PollActive True, Wait, PollIdle False, PollActive False, PollActive False]"
    using i by (simp add: numeral_2_eq_2 new_run_state_def)
  moreover have "active store_world 1 \<and> \<not> active store_world 2" by (simp add: store_world_def)
  ultimately show ?thesis by blast
qed

text \<open>
  Claim C8. When now minus the find time is a date, as it is for a find time of 600 and
  every clock from ten minutes after the first date on: the startup seeks to that time
  and steps back once, and the reader is left where the step back leaves it; an
  \<open>OSError\<close> of the step, like an entry or no entry, lets the startup return, and \<open>run\<close>
  goes on to the main loop. With the cursor reader the startup returns in every case,
  the store keeps its entries, the cursor is on the entry before the first entry at or
  after that time, or at the seek point when there is no entry before or the step back
  fails, and the first forward read returns the first entry of the store whose stamp is
  at or after now minus the find time, and no entry when there is none; when the store
  is sorted by stamp, no entry at or after that time is earlier. An empty store gives no
  entry. When now minus the find time is no date, the startup raises \<open>OverflowError\<close>
  before the seek. \<open>seekToTime\<close> seeks to a date, and to the date of a number of seconds
  unless the conversion raises.
\<close>

theorem startup_seek_position:
  "(start_time_ok W \<longrightarrow>
      jrnl (snd (startup W s)) = snd (get_previous (reader W) (seek_realtime (reader W) (now W - findtime W * 1000000) (jrnl s))) \<and>
      trace (snd (startup W s)) = trace s @ [Seek (now W - findtime W * 1000000), StepBack] \<and>
      ((\<exists>m. fst (get_previous (reader W) (seek_realtime (reader W) (now W - findtime W * 1000000) (jrnl s))) = Inl (OSError m)) \<or>
       (\<exists>e. fst (get_previous (reader W) (seek_realtime (reader W) (now W - findtime W * 1000000) (jrnl s))) = Inr e) \<longrightarrow>
       fst (startup W s) = Returned \<and> run W n s = main_loop W n (snd (startup W s))) \<and>
      (reader W = store_ops \<longrightarrow>
         fst (startup W s) = Returned \<and>
         run W n s = main_loop W n (snd (startup W s)) \<and>
         entries (jrnl (snd (startup W s))) = entries (jrnl s) \<and>
         cursor (jrnl (snd (startup W s))) =
           (if broken (jrnl s) \<or> length (takeWhile (\<lambda>(ts, e). ts < now W - findtime W * 1000000) (entries (jrnl s))) = 0
            then SeekPoint (length (takeWhile (\<lambda>(ts, e). ts < now W - findtime W * 1000000) (entries (jrnl s))))
            else OnEntry (length (takeWhile (\<lambda>(ts, e). ts < now W - findtime W * 1000000) (entries (jrnl s))) - 1)) \<and>
         fst (store_get_next (jrnl (snd (startup W s)))) =
           Some (case find (\<lambda>(ts, e). now W - findtime W * 1000000 \<le> ts) (entries (jrnl s)) of
                   None \<Rightarrow> [] | Some (ts, e) \<Rightarrow> e) \<and>
         (sorted (map fst (entries (jrnl s))) \<longrightarrow>
            (\<forall>ts e ts' e'.
               find (\<lambda>(ts, e). now W - findtime W * 1000000 \<le> ts) (entries (jrnl s)) = Some (ts, e) \<and>
               (ts', e') \<in> set (entries (jrnl s)) \<and> now W - findtime W * 1000000 \<le> ts'
               \<longrightarrow> ts \<le> ts')) \<and>
         (entries (jrnl s) = [] \<longrightarrow> fst (store_get_next (jrnl (snd (startup W s)))) = Some []))) \<and>
   (findtime W = 600 \<and> datetime_min + 600000000 \<le> now W \<and> now W \<le> datetime_max \<longrightarrow>
      start_time_ok W) \<and>
   (\<not> start_time_ok W \<longrightarrow>
      (\<exists>m. startup W s = (Raised (OverflowError m), s) \<and>
          run W n s = Some (Raised (OverflowError m), s))) \<and>
   seekToTime W (AsDatetime t) s =
      (Returned, s\<lparr>jrnl := seek_realtime (reader W) t (jrnl s), trace := trace s @ [Seek t]\<rparr>) \<and>
   (fromtimestamp W x = Inr t \<longrightarrow> seekToTime W (AsTimestamp x) s = seekToTime W (AsDatetime t) s) \<and>
   (fromtimestamp W x = Inl err \<longrightarrow> seekToTime W (AsTimestamp x) s = (Raised err, s))"
proof -
  let ?t = "now W - findtime W * 1000000"
  let ?es = "entries (jrnl s)"
  let ?i = "length (takeWhile (\<lambda>(ts, e). ts < ?t) ?es)"
  have g1: "jrnl (snd (startup W s)) = snd (get_previous (reader W) (seek_realtime (reader W) (now W - findtime W * 1000000) (jrnl s)))" if "start_time_ok W"
    by (rule startup_step(1)[OF that])
  have g2: "trace (snd (startup W s)) = trace s @ [Seek (now W - findtime W * 1000000), StepBack]" if "start_time_ok W"
    by (rule startup_step(2)[OF that])
  have g3: "fst (startup W s) = Returned \<and> run W n s = main_loop W n (snd (startup W s))"
    if ok: "start_time_ok W" and h: "(\<exists>m. fst (get_previous (reader W) (seek_realtime (reader W) (now W - findtime W * 1000000) (jrnl s))) = Inl (OSError m)) \<or>
       (\<exists>e. fst (get_previous (reader W) (seek_realtime (reader W) (now W - findtime W * 1000000) (jrnl s))) = Inr e)"
  proof -
    have "fst (startup W s) = Returned" using h by (rule startup_step(3)[OF ok])
    then show ?thesis using run_after_startup by blast
  qed
  have s1: "fst (startup W s) = Returned" if "start_time_ok W" and "reader W = store_ops"
    by (rule startup_store(2)[OF that])
  have s2: "run W n s = main_loop W n (snd (startup W s))" if "start_time_ok W" and "reader W = store_ops"
    using s1[OF that] by (rule run_after_startup)
  have s3: "entries (jrnl (snd (startup W s))) = entries (jrnl s)" if "start_time_ok W" and "reader W = store_ops"
    by (simp add: startup_store(1)[OF that] store_cursor_after_step(2))
  have s4: "cursor (jrnl (snd (startup W s))) =
           (if broken (jrnl s) \<or> length (takeWhile (\<lambda>(ts, e). ts < now W - findtime W * 1000000) (entries (jrnl s))) = 0
            then SeekPoint (length (takeWhile (\<lambda>(ts, e). ts < now W - findtime W * 1000000) (entries (jrnl s))))
            else OnEntry (length (takeWhile (\<lambda>(ts, e). ts < now W - findtime W * 1000000) (entries (jrnl s))) - 1))" if "start_time_ok W" and "reader W = store_ops"
    by (simp add: startup_store(1)[OF that] store_cursor_after_step(1))
  have s5: "fst (store_get_next (jrnl (snd (startup W s)))) =
           Some (case find (\<lambda>(ts, e). now W - findtime W * 1000000 \<le> ts) (entries (jrnl s)) of
                   None \<Rightarrow> [] | Some (ts, e) \<Rightarrow> e)" if "start_time_ok W" and "reader W = store_ops"
    by (simp only: startup_store(1)[OF that] store_next_after_step first_at_or_after)
  have s6: "ts \<le> ts'"
    if srt: "sorted (map fst ?es)" and f: "find (\<lambda>(ts, e). ?t \<le> ts) ?es = Some (ts, e)"
      and m: "(ts', e') \<in> set ?es" and le: "?t \<le> ts'" for ts e ts' e'
  proof -
    have i: "?i < length ?es" and x: "?es ! ?i = (ts, e)"
      using f by (simp_all add: find_takeWhile[of "\<lambda>(ts, e). ?t \<le> ts" ?es] not_at_or_after split: if_splits)
    from sorted_after_takeWhile[OF srt refl i m le] show ?thesis by (simp add: x)
  qed
  have s7: "fst (store_get_next (jrnl (snd (startup W s)))) = Some []"
    if "start_time_ok W" and "reader W = store_ops" and "?es = []"
    using that(3) by (simp add: s5[OF that(1,2)])
  have inst: "start_time_ok W"
    if "findtime W = 600 \<and> datetime_min + 600000000 \<le> now W \<and> now W \<le> datetime_max"
    using that by (simp add: start_time_ok_def timedelta_seconds_ok_def datetime_min_def datetime_max_def)
  have oor: "\<exists>m. startup W s = (Raised (OverflowError m), s) \<and>
          run W n s = Some (Raised (OverflowError m), s)" if "\<not> start_time_ok W"
  proof -
    from startup_out_of_range[OF that] obtain m where
      m: "startup W s = (Raised (OverflowError m), s)" by blast
    then have "run W n s = Some (Raised (OverflowError m), s)" by (simp add: run_def)
    with m show ?thesis by blast
  qed
  have sk1: "seekToTime W (AsDatetime t) s =
      (Returned, s\<lparr>jrnl := seek_realtime (reader W) t (jrnl s), trace := trace s @ [Seek t]\<rparr>)"
    by (simp add: seekToTime_def)
  have sk2: "fromtimestamp W x = Inr t \<longrightarrow> seekToTime W (AsTimestamp x) s = seekToTime W (AsDatetime t) s"
    by (simp add: seekToTime_def)
  have sk3: "fromtimestamp W x = Inl err \<longrightarrow> seekToTime W (AsTimestamp x) s = (Raised err, s)"
    by (simp add: seekToTime_def)
  show ?thesis
  proof (intro conjI impI)
    assume ok: "start_time_ok W"
    show "jrnl (snd (startup W s)) = snd (get_previous (reader W) (seek_realtime (reader W) (now W - findtime W * 1000000) (jrnl s)))" by (rule g1[OF ok])
    show "trace (snd (startup W s)) = trace s @ [Seek (now W - findtime W * 1000000), StepBack]" by (rule g2[OF ok])
  next
    assume ok: "start_time_ok W" and h: "(\<exists>m. fst (get_previous (reader W) (seek_realtime (reader W) (now W - findtime W * 1000000) (jrnl s))) = Inl (OSError m)) \<or>
       (\<exists>e. fst (get_previous (reader W) (seek_realtime (reader W) (now W - findtime W * 1000000) (jrnl s))) = Inr e)"
    note r = g3[OF ok h]
    show "fst (startup W s) = Returned" using r by simp
    show "run W n s = main_loop W n (snd (startup W s))" using r by simp
  next
    assume ok: "start_time_ok W" and r: "reader W = store_ops"
    show "fst (startup W s) = Returned" by (rule s1[OF ok r])
    show "run W n s = main_loop W n (snd (startup W s))" by (rule s2[OF ok r])
    show "entries (jrnl (snd (startup W s))) = entries (jrnl s)" by (rule s3[OF ok r])
    show "cursor (jrnl (snd (startup W s))) =
           (if broken (jrnl s) \<or> length (takeWhile (\<lambda>(ts, e). ts < now W - findtime W * 1000000) (entries (jrnl s))) = 0
            then SeekPoint (length (takeWhile (\<lambda>(ts, e). ts < now W - findtime W * 1000000) (entries (jrnl s))))
            else OnEntry (length (takeWhile (\<lambda>(ts, e). ts < now W - findtime W * 1000000) (entries (jrnl s))) - 1))" by (rule s4[OF ok r])
    show "fst (store_get_next (jrnl (snd (startup W s)))) =
           Some (case find (\<lambda>(ts, e). now W - findtime W * 1000000 \<le> ts) (entries (jrnl s)) of
                   None \<Rightarrow> [] | Some (ts, e) \<Rightarrow> e)" by (rule s5[OF ok r])
  next
    assume ok: "start_time_ok W" and r: "reader W = store_ops"
      and srt: "sorted (map fst (entries (jrnl s)))"
    show "\<forall>ts e ts' e'.
               find (\<lambda>(ts, e). now W - findtime W * 1000000 \<le> ts) (entries (jrnl s)) = Some (ts, e) \<and>
               (ts', e') \<in> set (entries (jrnl s)) \<and> now W - findtime W * 1000000 \<le> ts'
               \<longrightarrow> ts \<le> ts'"
      using s6[OF srt] by blast
  next
    assume ok: "start_time_ok W" and r: "reader W = store_ops" and e: "entries (jrnl s) = []"
    show "fst (store_get_next (jrnl (snd (startup W s)))) = Some []" by (rule s7[OF ok r e])
  next
    assume "findtime W = 600 \<and> datetime_min + 600000000 \<le> now W \<and> now W \<le> datetime_max"
    then show "start_time_ok W" by (rule inst)
  next
    assume "\<not> start_time_ok W"
    then show "\<exists>m. startup W s = (Raised (OverflowError m), s) \<and>
          run W n s = Some (Raised (OverflowError m), s)" by (rule oor)
  next
    show "seekToTime W (AsDatetime t) s =
      (Returned, s\<lparr>jrnl := seek_realtime (reader W) t (jrnl s), trace := trace s @ [Seek t]\<rparr>)" by (rule sk1)
  next
    assume "fromtimestamp W x = Inr t"
    then show "seekToTime W (AsTimestamp x) s = seekToTime W (AsDatetime t) s" using sk2 by simp
  next
    assume "fromtimestamp W x = Inl err"
    then show "seekToTime W (AsTimestamp x) s = (Raised err, s)" using sk3 by simp
  qed
qed

text \<open>
  The store of four entries at a find time of 600 and a clock at 1000 seconds: the cursor
  is left on the second entry and the first forward read returns the third, whose stamp
  is the start time; with a failing step back the cursor stays at the seek point and the
  read returns the same entry; the empty store gives no entry.
\<close>

theorem startup_seek_position_witness:
  "start_time_ok store_world \<and> reader store_world = store_ops \<and> findtime store_world = 600 \<and>
   fst (startup store_world (new_run_state sample_store)) = Returned \<and>
   cursor (jrnl (snd (startup store_world (new_run_state sample_store)))) = OnEntry 1 \<and>
   fst (store_get_next (jrnl (snd (startup store_world (new_run_state sample_store))))) =
     Some [(''MESSAGE'', JStr ''c'')] \<and>
   fst (startup store_world (new_run_state (sample_store\<lparr>broken := True\<rparr>))) = Returned \<and>
   cursor (jrnl (snd (startup store_world (new_run_state (sample_store\<lparr>broken := True\<rparr>))))) =
     SeekPoint 2 \<and>
   fst (store_get_next (jrnl (snd (startup store_world
          (new_run_state (sample_store\<lparr>broken := True\<rparr>)))))) =
     Some [(''MESSAGE'', JStr ''c'')] \<and>
   fst (startup store_world (new_run_state (sample_store\<lparr>entries := []\<rparr>))) = Returned \<and>
   fst (store_get_next (jrnl (snd (startup store_world
          (new_run_state (sample_store\<lparr>entries := []\<rparr>)))))) =
     Some []"
proof -
  have ok: "start_time_ok store_world"
    by (simp add: start_time_ok_def timedelta_seconds_ok_def datetime_min_def datetime_max_def
        store_world_def)
  have r: "reader store_world = store_ops" by (simp add: store_world_def)
  have f: "findtime store_world = 600" by (simp add: store_world_def)
  note t1 = mp[OF conjunct2[OF conjunct2[OF conjunct2[OF
      mp[OF conjunct1[OF startup_seek_position[of store_world "new_run_state sample_store" 0]] ok]]]] r]
  note t2 = mp[OF conjunct2[OF conjunct2[OF conjunct2[OF
      mp[OF conjunct1[OF startup_seek_position[of store_world
        "new_run_state (sample_store\<lparr>broken := True\<rparr>)" 0]] ok]]]] r]
  note t3 = mp[OF conjunct2[OF conjunct2[OF conjunct2[OF
      mp[OF conjunct1[OF startup_seek_position[of store_world
        "new_run_state (sample_store\<lparr>entries := []\<rparr>)" 0]] ok]]]] r]
  have i1: "length (takeWhile (\<lambda>(ts, e). ts < now store_world - findtime store_world * 1000000)
                (entries (jrnl (new_run_state sample_store)))) = 2"
    by (simp add: store_world_def new_run_state_def sample_store_def)
  have i2: "length (takeWhile (\<lambda>(ts, e). ts < now store_world - findtime store_world * 1000000)
                (entries (jrnl (new_run_state (sample_store\<lparr>broken := True\<rparr>))))) = 2"
    by (simp add: store_world_def new_run_state_def sample_store_def)
  have e1: "(case find (\<lambda>(ts, e). now store_world - findtime store_world * 1000000 \<le> ts)
                (entries (jrnl (new_run_state sample_store))) of
              None \<Rightarrow> [] | Some (ts, e) \<Rightarrow> e) = [(''MESSAGE'', JStr ''c'')]"
    by (simp add: store_world_def new_run_state_def sample_store_def)
  have e2: "(case find (\<lambda>(ts, e). now store_world - findtime store_world * 1000000 \<le> ts)
                (entries (jrnl (new_run_state (sample_store\<lparr>broken := True\<rparr>)))) of
              None \<Rightarrow> [] | Some (ts, e) \<Rightarrow> e) = [(''MESSAGE'', JStr ''c'')]"
    by (simp add: store_world_def new_run_state_def sample_store_def)
  have e3: "entries (jrnl (new_run_state (sample_store\<lparr>entries := []\<rparr>))) = []"
    by (simp add: new_run_state_def)
  have b1: "\<not> broken (jrnl (new_run_state sample_store))"
    by (simp add: new_run_state_def sample_store_def)
  have b2: "broken (jrnl (new_run_state (sample_store\<lparr>broken := True\<rparr>)))"
    by (simp add: new_run_state_def)
  have c1: "fst (startup store_world (new_run_state sample_store)) = Returned \<and>
     cursor (jrnl (snd (startup store_world (new_run_state sample_store)))) = OnEntry 1 \<and>
     fst (store_get_next (jrnl (snd (startup store_world (new_run_state sample_store))))) =
       Some [(''MESSAGE'', JStr ''c'')]"
    using t1 b1 by (simp only: i1 e1) simp
  have c2: "fst (startup store_world (new_run_state (sample_store\<lparr>broken := True\<rparr>))) = Returned \<and>
     cursor (jrnl (snd (startup store_world (new_run_state (sample_store\<lparr>broken := True\<rparr>))))) =
       SeekPoint 2 \<and>
     fst (store_get_next (jrnl (snd (startup store_world
            (new_run_state (sample_store\<lparr>broken := True\<rparr>)))))) =
       Some [(''MESSAGE'', JStr ''c'')]"
    using t2 b2 by (simp only: i2 e2) simp
  have c3: "fst (startup store_world (new_run_state (sample_store\<lparr>entries := []\<rparr>))) = Returned \<and>
     fst (store_get_next (jrnl (snd (startup store_world
            (new_run_state (sample_store\<lparr>entries := []\<rparr>)))))) =
       Some []"
    using t3 e3 by blast
  from ok r f c1 c2 c3 show ?thesis by blast
qed

end
